theory Spec2Isabelle
  imports Complex_Main "HOL-Library.Word"
begin

unbundle bit_operations_syntax

section \<open>Data: buffers, JavaScript strings, numbers, errors\<close>

text \<open>
  A Node.js \<open>Buffer\<close> is a sequence of unsigned 8-bit integers; a JavaScript string is a
  sequence of UTF-16 code units. A JavaScript \<open>Number\<close> that holds a size or a key
  length is modelled as a real number: \<open>keyLength/8\<close> is exact division (a division of
  a double by 8 is exact), so a key length that is not a multiple of 8 gives a
  fractional size, as in the source. \<open>NaN\<close> and the infinities are outside the model, and
  so are the resource limits of the platform (the largest buffer, the available memory).
\<close>

type_synonym byte = "8 word"
type_synonym buffer = "byte list"
type_synonym code_unit = "16 word"
type_synonym jsstring = "code_unit list"

definition js :: "string \<Rightarrow> jsstring" where
  \<comment> \<open>an ASCII string literal of the source, as code units\<close>
  "js s = map of_char s"

text \<open>
  Exceptions are values. The source raises none of its own: each error is the one thrown
  by the library call that fails, named after Node's error code.
\<close>

datatype error =
    ERR_OUT_OF_RANGE real
    \<comment> \<open>\<open>Buffer.alloc(size)\<close>: RangeError, the value of "size" is out of range; carries the size received\<close>
  | ENOENT jsstring
    \<comment> \<open>\<open>fs.readFileSync(path)\<close>: no such file\<close>
  | ERR_OSSL_UNSUPPORTED
    \<comment> \<open>the key file holds no key of the kind the operation needs\<close>
  | ERR_OSSL_RSA_DATA_TOO_SMALL_FOR_KEY_SIZE
  | ERR_OSSL_RSA_DATA_TOO_LARGE_FOR_KEY_SIZE
  | ERR_OSSL_RSA_DATA_TOO_LARGE_FOR_MODULUS
  | ERR_OSSL_RSA_DATA_GREATER_THAN_MOD_LEN
  | ERR_CRYPTO_UNKNOWN_CIPHER
    \<comment> \<open>\<open>crypto.createCipheriv\<close>, \<open>crypto.createDecipheriv\<close>: no such algorithm\<close>
  | ERR_CRYPTO_INVALID_KEYLEN
  | ERR_CRYPTO_INVALID_IV
  | ERR_OSSL_BAD_DECRYPT
    \<comment> \<open>\<open>decipher.final\<close>: the padding of the last block is wrong\<close>
  | ERR_ASSERTION
    \<comment> \<open>\<open>cipher.final(outputEncoding)\<close>: the encoding is not the one of \<open>update\<close>\<close>

section \<open>UTF-8 output of strings: \<open>Buffer.from(string)\<close> and \<open>buffer.write(string)\<close>\<close>

definition utf8_bytes :: "nat \<Rightarrow> buffer" where
  \<comment> \<open>the UTF-8 encoding of one code point\<close>
  "utf8_bytes cp =
     (if cp < 0x80 then [of_nat cp]
      else if cp < 0x800 then [of_nat (0xC0 + cp div 64), of_nat (0x80 + cp mod 64)]
      else if cp < 0x10000 then
        [of_nat (0xE0 + cp div 4096), of_nat (0x80 + cp div 64 mod 64), of_nat (0x80 + cp mod 64)]
      else
        [of_nat (0xF0 + cp div 262144), of_nat (0x80 + cp div 4096 mod 64),
         of_nat (0x80 + cp div 64 mod 64), of_nat (0x80 + cp mod 64)])"

definition is_high_surrogate :: "code_unit \<Rightarrow> bool" where
  "is_high_surrogate u \<longleftrightarrow> 0xD800 \<le> u \<and> u \<le> 0xDBFF"

definition is_low_surrogate :: "code_unit \<Rightarrow> bool" where
  "is_low_surrogate u \<longleftrightarrow> 0xDC00 \<le> u \<and> u \<le> 0xDFFF"

fun utf8_chunks :: "jsstring \<Rightarrow> buffer list" where
  \<comment> \<open>the encoding of each character of a string; a surrogate pair is one character of
      four bytes, an unpaired surrogate is written as U+FFFD\<close>
  "utf8_chunks [] = []"
| "utf8_chunks [u] =
     (if is_high_surrogate u \<or> is_low_surrogate u then [utf8_bytes 0xFFFD]
      else [utf8_bytes (unat u)])"
| "utf8_chunks (u # v # us) =
     (if is_high_surrogate u then
        (if is_low_surrogate v then
           utf8_bytes (0x10000 + (unat u - 0xD800) * 1024 + (unat v - 0xDC00)) # utf8_chunks us
         else utf8_bytes 0xFFFD # utf8_chunks (v # us))
      else if is_low_surrogate u then utf8_bytes 0xFFFD # utf8_chunks (v # us)
      else utf8_bytes (unat u) # utf8_chunks (v # us))"

definition Buffer_from :: "jsstring \<Rightarrow> buffer" where
  \<comment> \<open>\<open>Buffer.from(string)\<close>, default encoding utf8\<close>
  "Buffer_from s = concat (utf8_chunks s)"

definition Buffer_alloc :: "real \<Rightarrow> error + buffer" where
  \<comment> \<open>\<open>Buffer.alloc(size)\<close>: a zero-filled buffer; a negative size throws a RangeError; a
      fractional size is truncated by the typed-array constructor\<close>
  "Buffer_alloc sz =
     (if sz < 0 then Inl (ERR_OUT_OF_RANGE sz) else Inr (replicate (nat \<lfloor>sz\<rfloor>) 0))"

fun write_chunks :: "buffer list \<Rightarrow> nat \<Rightarrow> buffer" where
  \<comment> \<open>the bytes that fit: a character that does not fit whole is not written, and writing stops\<close>
  "write_chunks [] room = []"
| "write_chunks (c # cs) room =
     (if length c \<le> room then c @ write_chunks cs (room - length c) else [])"

definition buffer_write :: "buffer \<Rightarrow> jsstring \<Rightarrow> buffer" where
  \<comment> \<open>\<open>buffer.write(str)\<close>: the buffer after writing the string, utf8, at offset 0\<close>
  "buffer_write buf str =
     (let written = write_chunks (utf8_chunks str) (length buf)
      in written @ drop (length written) buf)"

section \<open>The random source\<close>

text \<open>
  \<open>Math.random()\<close> reads and advances a hidden generator. The generator is the sequence of
  the numbers it will return; a call returns the first and leaves the rest.
\<close>

type_synonym rng = "nat \<Rightarrow> real"

definition Math_random :: "rng \<Rightarrow> real \<times> rng" where
  "Math_random g = (g 0, \<lambda>k. g (Suc k))"

definition unit_draws :: "rng \<Rightarrow> bool" where
  \<comment> \<open>the contract of \<open>Math.random\<close>: every number is in [0, 1)\<close>
  "unit_draws g \<longleftrightarrow> (\<forall>k. 0 \<le> g k \<and> g k < 1)"

definition letters :: jsstring where
  "letters = js ''abcdefghijklmnopqrstuvwxyz''"

definition char_at :: "jsstring \<Rightarrow> int \<Rightarrow> jsstring" where
  \<comment> \<open>\<open>str += s[i]\<close>: the text appended; out of range \<open>s[i]\<close> is \<open>undefined\<close>, appended as the
      text "undefined"\<close>
  "char_at s i = (if 0 \<le> i \<and> i < int (length s) then [s ! nat i] else js ''undefined'')"

function getRandomString_loop :: "real \<Rightarrow> jsstring \<Rightarrow> nat \<Rightarrow> rng \<Rightarrow> jsstring \<times> rng" where
  "getRandomString_loop len str count g =
     (if real count < len then
        (let (r, g') = Math_random g
         in getRandomString_loop len (str @ char_at letters \<lfloor>r * 26\<rfloor>) (Suc count) g')
      else (str, g))"
  by pat_completeness auto
termination
proof (relation "measure (\<lambda>(len, str, count, g). nat \<lceil>len\<rceil> - count)")
  show "wf (measure (\<lambda>(len, str, count, g). nat \<lceil>len\<rceil> - count))"
    by simp
next
  fix len :: real and str :: jsstring and count :: nat and g :: rng
    and x :: "real \<times> rng" and r :: real and g' :: rng
  assume "real count < len"
  then have "count < nat \<lceil>len\<rceil>"
    by linarith
  then show "((len, str @ char_at letters \<lfloor>r * 26\<rfloor>, Suc count, g'), (len, str, count, g))
      \<in> measure (\<lambda>(len, str, count, g). nat \<lceil>len\<rceil> - count)"
    by simp
qed

declare getRandomString_loop.simps [simp del]

definition getRandomString :: "real \<Rightarrow> rng \<Rightarrow> jsstring \<times> rng" where
  "getRandomString len g = getRandomString_loop len [] 0 g"

definition getRandomBytes :: "real \<Rightarrow> rng \<Rightarrow> error + (buffer \<times> rng)" where
  "getRandomBytes sz g =
     (case Buffer_alloc sz of
        Inl e \<Rightarrow> Inl e
      | Inr buffer \<Rightarrow>
          (let (str, g') = getRandomString sz g
           in Inr (buffer_write buffer str, g')))"

section \<open>AES key and initialisation vector\<close>

record aes_key_iv =
  key :: buffer
  iv :: buffer

definition genAESKeyAndIv :: "real \<Rightarrow> rng \<Rightarrow> error + (aes_key_iv \<times> rng)" where
  "genAESKeyAndIv keyLength g =
     (case getRandomBytes (keyLength / 8) g of
        Inl e \<Rightarrow> Inl e
      | Inr (k, g1) \<Rightarrow>
          (case getRandomBytes (128 / 8) g1 of
             Inl e \<Rightarrow> Inl e
           | Inr (v, g2) \<Rightarrow> Inr (\<lparr>key = k, iv = v\<rparr>, g2)))"

definition genAESKeyAndIv_default :: "rng \<Rightarrow> error + (aes_key_iv \<times> rng)" where
  \<comment> \<open>the call without an argument: \<open>keyLength = 256\<close>\<close>
  "genAESKeyAndIv_default g = genAESKeyAndIv 256 g"

section \<open>Encodings: \<open>buffer.toString(encoding)\<close> and \<open>Buffer.from(string, encoding)\<close>\<close>

text \<open>
  The encodings the source names in its comments. An option the caller leaves out is
  \<open>None\<close> and takes the default written in the function's parameter list.
\<close>

datatype encoding = Utf8 | Latin1 | Ascii | Hex | Base64

definition utf8_first :: "nat \<Rightarrow> nat list \<Rightarrow> nat \<times> nat" where
  \<comment> \<open>decoding one character: the first byte and the bytes after it give the code point
      and the number of following bytes consumed. An ill-formed sequence gives U+FFFD for
      its longest well-formed start, and decoding goes on at the byte that broke it.\<close>
  "utf8_first x rest =
     (let cont = (\<lambda>lo hi ys. case ys of [] \<Rightarrow> None
                    | y # _ \<Rightarrow> if lo \<le> y \<and> y \<le> hi then Some (y - 0x80) else None)
      in
      if x < 0x80 then (x, 0)
      else if 0xC2 \<le> x \<and> x \<le> 0xDF then
        (case cont 0x80 0xBF rest of None \<Rightarrow> (0xFFFD, 0)
         | Some a \<Rightarrow> ((x - 0xC0) * 64 + a, 1))
      else if 0xE0 \<le> x \<and> x \<le> 0xEF then
        (case cont (if x = 0xE0 then 0xA0 else 0x80) (if x = 0xED then 0x9F else 0xBF) rest of
           None \<Rightarrow> (0xFFFD, 0)
         | Some a \<Rightarrow>
             (case cont 0x80 0xBF (drop 1 rest) of None \<Rightarrow> (0xFFFD, 1)
              | Some b \<Rightarrow> ((x - 0xE0) * 4096 + a * 64 + b, 2)))
      else if 0xF0 \<le> x \<and> x \<le> 0xF4 then
        (case cont (if x = 0xF0 then 0x90 else 0x80) (if x = 0xF4 then 0x8F else 0xBF) rest of
           None \<Rightarrow> (0xFFFD, 0)
         | Some a \<Rightarrow>
             (case cont 0x80 0xBF (drop 1 rest) of None \<Rightarrow> (0xFFFD, 1)
              | Some b \<Rightarrow>
                  (case cont 0x80 0xBF (drop 2 rest) of None \<Rightarrow> (0xFFFD, 2)
                   | Some c \<Rightarrow> ((x - 0xF0) * 262144 + a * 4096 + b * 64 + c, 3))))
      else (0xFFFD, 0))"

function utf8_decode :: "nat list \<Rightarrow> nat list" where
  \<comment> \<open>the code points of a byte sequence\<close>
  "utf8_decode [] = []"
| "utf8_decode (x # xs) =
     (let (cp, used) = utf8_first x xs in cp # utf8_decode (drop used xs))"
  by pat_completeness auto
termination
  by (relation "measure length") auto

definition utf16_units :: "nat \<Rightarrow> jsstring" where
  \<comment> \<open>a code point as code units: itself, or a surrogate pair\<close>
  "utf16_units cp =
     (if cp < 0x10000 then [of_nat cp]
      else [of_nat (0xD800 + (cp - 0x10000) div 1024), of_nat (0xDC00 + (cp - 0x10000) mod 1024)])"

definition hex_digit :: "nat \<Rightarrow> code_unit" where
  "hex_digit d = (if d < 10 then of_nat (48 + d) else of_nat (87 + d))"

definition unhex :: "code_unit \<Rightarrow> nat option" where
  "unhex c =
     (let x = unat c in
      if 48 \<le> x \<and> x \<le> 57 then Some (x - 48)
      else if 97 \<le> x \<and> x \<le> 102 then Some (x - 87)
      else if 65 \<le> x \<and> x \<le> 70 then Some (x - 55)
      else None)"

fun hex_decode :: "jsstring \<Rightarrow> buffer" where
  \<comment> \<open>pairs of hexadecimal digits; decoding stops at the first pair that is not one\<close>
  "hex_decode (c # d # cs) =
     (case (unhex c, unhex d) of
        (Some h, Some l) \<Rightarrow> of_nat (h * 16 + l) # hex_decode cs
      | _ \<Rightarrow> [])"
| "hex_decode cs = []"

definition b64_char :: "nat \<Rightarrow> code_unit" where
  \<comment> \<open>the alphabet \<open>A-Z a-z 0-9 + /\<close>\<close>
  "b64_char i =
     (if i < 26 then of_nat (65 + i)
      else if i < 52 then of_nat (71 + i)
      else if i < 62 then of_nat (i - 4)
      else if i = 62 then 0x2B
      else 0x2F)"

definition unbase64 :: "code_unit \<Rightarrow> nat option" where
  \<comment> \<open>the value of a character of the alphabet; \<open>-\<close> and \<open>_\<close> of the URL-safe alphabet are
      accepted for 62 and 63\<close>
  "unbase64 c =
     (let x = unat c in
      if 65 \<le> x \<and> x \<le> 90 then Some (x - 65)
      else if 97 \<le> x \<and> x \<le> 122 then Some (x - 71)
      else if 48 \<le> x \<and> x \<le> 57 then Some (x + 4)
      else if x = 43 \<or> x = 45 then Some 62
      else if x = 47 \<or> x = 95 then Some 63
      else None)"

fun b64_encode :: "buffer \<Rightarrow> jsstring" where
  "b64_encode [] = []"
| "b64_encode [a] =
     (let n = unat a * 65536
      in [b64_char (n div 262144), b64_char (n div 4096 mod 64), 0x3D, 0x3D])"
| "b64_encode [a, b] =
     (let n = unat a * 65536 + unat b * 256
      in [b64_char (n div 262144), b64_char (n div 4096 mod 64), b64_char (n div 64 mod 64), 0x3D])"
| "b64_encode (a # b # c # rest) =
     (let n = unat a * 65536 + unat b * 256 + unat c
      in [b64_char (n div 262144), b64_char (n div 4096 mod 64), b64_char (n div 64 mod 64),
          b64_char (n mod 64)] @ b64_encode rest)"

fun b64_sextets :: "jsstring \<Rightarrow> nat list" where
  \<comment> \<open>the values of the characters up to the first \<open>=\<close>; a character outside the alphabet
      is skipped\<close>
  "b64_sextets [] = []"
| "b64_sextets (c # cs) =
     (if c = 0x3D then []
      else (case unbase64 c of None \<Rightarrow> b64_sextets cs | Some v \<Rightarrow> v # b64_sextets cs))"

fun b64_bytes :: "nat list \<Rightarrow> buffer" where
  "b64_bytes (s1 # s2 # s3 # s4 # rest) =
     (let n = s1 * 262144 + s2 * 4096 + s3 * 64 + s4
      in [of_nat (n div 65536), of_nat (n div 256 mod 256), of_nat (n mod 256)] @ b64_bytes rest)"
| "b64_bytes [s1, s2, s3] =
     (let n = s1 * 262144 + s2 * 4096 + s3 * 64
      in [of_nat (n div 65536), of_nat (n div 256 mod 256)])"
| "b64_bytes [s1, s2] = [of_nat ((s1 * 262144 + s2 * 4096) div 65536)]"
| "b64_bytes ss = []"

fun toString :: "buffer \<Rightarrow> encoding \<Rightarrow> jsstring" where
  "toString buf Utf8 = concat (map utf16_units (utf8_decode (map unat buf)))"
| "toString buf Latin1 = map ucast buf"
| "toString buf Ascii = map (\<lambda>b. ucast (b AND 0x7F)) buf"
| "toString buf Hex = concat (map (\<lambda>b. [hex_digit (unat b div 16), hex_digit (unat b mod 16)]) buf)"
| "toString buf Base64 = b64_encode buf"

fun Buffer_from_encoded :: "jsstring \<Rightarrow> encoding \<Rightarrow> buffer" where
  \<comment> \<open>\<open>Buffer.from(string, encoding)\<close>\<close>
  "Buffer_from_encoded s Utf8 = Buffer_from s"
| "Buffer_from_encoded s Latin1 = map ucast s"
| "Buffer_from_encoded s Ascii = map ucast s"
| "Buffer_from_encoded s Hex = hex_decode s"
| "Buffer_from_encoded s Base64 = b64_bytes (b64_sextets s)"

definition default_to :: "'a \<Rightarrow> 'a option \<Rightarrow> 'a" where
  \<comment> \<open>a destructured option with a default value\<close>
  "default_to d v = (case v of None \<Rightarrow> d | Some x \<Rightarrow> x)"

section \<open>Key files and the raw RSA transform\<close>

text \<open>
  \<open>fs.readFileSync(path)\<close> returns the content of a key file, which
  \<open>crypto.publicEncrypt\<close> and \<open>crypto.privateDecrypt\<close> parse. A file is modelled by the key
  it holds: a public key (modulus, public exponent), a private key (modulus, public and
  private exponent), or no key at all.
\<close>

datatype keyfile = PublicKey nat nat | PrivateKey nat nat nat | NoKey

type_synonym filesystem = "jsstring \<rightharpoonup> keyfile"

definition readFileSync :: "filesystem \<Rightarrow> jsstring \<Rightarrow> error + keyfile" where
  "readFileSync fs path = (case fs path of None \<Rightarrow> Inl (ENOENT path) | Some f \<Rightarrow> Inr f)"

fun os2ip :: "buffer \<Rightarrow> nat" where
  \<comment> \<open>the number a byte sequence denotes, most significant byte first\<close>
  "os2ip [] = 0"
| "os2ip (b # bs) = unat b * 256 ^ length bs + os2ip bs"

fun i2osp :: "nat \<Rightarrow> nat \<Rightarrow> buffer" where
  \<comment> \<open>a number as exactly \<open>len\<close> bytes, most significant first, zero-padded on the left\<close>
  "i2osp 0 v = []"
| "i2osp (Suc len) v = i2osp len (v div 256) @ [of_nat (v mod 256)]"

fun RSA_size :: "nat \<Rightarrow> nat" where
  \<comment> \<open>the number of bytes of a modulus\<close>
  "RSA_size n = (if n = 0 then 0 else Suc (RSA_size (n div 256)))"

declare RSA_size.simps [simp del]

fun modpow :: "nat \<Rightarrow> nat \<Rightarrow> nat \<Rightarrow> nat" where
  \<comment> \<open>\<open>b ^ e mod n\<close> by repeated squaring\<close>
  "modpow b e n =
     (if e = 0 then 1 mod n
      else if even e then (modpow b (e div 2) n)\<^sup>2 mod n
      else b * (modpow b (e div 2) n)\<^sup>2 mod n)"

declare modpow.simps [simp del]

definition publicEncrypt :: "keyfile \<Rightarrow> buffer \<Rightarrow> error + buffer" where
  \<comment> \<open>\<open>crypto.publicEncrypt({key, padding: RSA_NO_PADDING}, data)\<close>: the data must have
      exactly the length of the modulus and denote a number below it\<close>
  "publicEncrypt k data =
     (case (case k of PublicKey n e \<Rightarrow> Some (n, e) | PrivateKey n e d \<Rightarrow> Some (n, e)
            | NoKey \<Rightarrow> None) of
        None \<Rightarrow> Inl ERR_OSSL_UNSUPPORTED
      | Some (n, e) \<Rightarrow>
          if RSA_size n < length data then Inl ERR_OSSL_RSA_DATA_TOO_LARGE_FOR_KEY_SIZE
          else if length data < RSA_size n then Inl ERR_OSSL_RSA_DATA_TOO_SMALL_FOR_KEY_SIZE
          else if n \<le> os2ip data then Inl ERR_OSSL_RSA_DATA_TOO_LARGE_FOR_MODULUS
          else Inr (i2osp (RSA_size n) (modpow (os2ip data) e n)))"

definition privateDecrypt :: "keyfile \<Rightarrow> buffer \<Rightarrow> error + buffer" where
  \<comment> \<open>\<open>crypto.privateDecrypt({key, padding: RSA_NO_PADDING}, data)\<close>: the result has
      exactly the length of the modulus\<close>
  "privateDecrypt k data =
     (case k of
        PrivateKey n e d \<Rightarrow>
          if RSA_size n < length data then Inl ERR_OSSL_RSA_DATA_GREATER_THAN_MOD_LEN
          else if n \<le> os2ip data then Inl ERR_OSSL_RSA_DATA_TOO_LARGE_FOR_MODULUS
          else Inr (i2osp (RSA_size n) (modpow (os2ip data) d n))
      | _ \<Rightarrow> Inl ERR_OSSL_UNSUPPORTED)"

section \<open>\<open>String.prototype.split\<close> with a string separator\<close>

definition SplitMatcher :: "'a list \<Rightarrow> nat \<Rightarrow> 'a list \<Rightarrow> nat option" where
  \<comment> \<open>the end of the separator \<open>R\<close> in \<open>S\<close> at position \<open>q\<close>, if it is there\<close>
  "SplitMatcher S q R =
     (if q + length R \<le> length S \<and> take (length R) (drop q S) = R
      then Some (q + length R) else None)"

function split_loop :: "'a list \<Rightarrow> 'a list \<Rightarrow> nat \<Rightarrow> nat \<Rightarrow> 'a list list" where
  \<comment> \<open>the loop of the language specification: \<open>p\<close> is the start of the current substring,
      \<open>q\<close> the position tried\<close>
  "split_loop S R p q =
     (if q < length S then
        (case SplitMatcher S q R of
           None \<Rightarrow> split_loop S R p (q + 1)
         | Some e \<Rightarrow>
             if e = p then split_loop S R p (q + 1)
             else take (q - p) (drop p S) # split_loop S R e e)
      else [drop p S])"
  by pat_completeness auto
termination
  apply (relation "measures [\<lambda>(S, R, p, q). length S - q, \<lambda>(S, R, p, q). if p = q then 0 else 1]")
    apply (auto simp: SplitMatcher_def split: if_splits)
  subgoal for S R q by (cases R) auto
  done

declare split_loop.simps [simp del]

definition split :: "'a list \<Rightarrow> 'a list \<Rightarrow> 'a list list" where
  \<comment> \<open>\<open>S.split(R)\<close>: the empty string splits into no substring at all when the separator
      is empty as well, and into itself otherwise\<close>
  "split S R =
     (if S = [] then (case SplitMatcher S 0 R of Some e \<Rightarrow> [] | None \<Rightarrow> [S])
      else split_loop S R 0 0)"

definition element_at :: "'a list \<Rightarrow> nat \<Rightarrow> 'a option" where
  \<comment> \<open>\<open>array[i]\<close>: \<open>undefined\<close>, here \<open>None\<close>, beyond the end\<close>
  "element_at xs i = (if i < length xs then Some (xs ! i) else None)"

section \<open>RSA encryption and decryption with the padding of the module\<close>

definition rsaEncrypt_contentNeedCrypt ::
  "buffer \<Rightarrow> jsstring \<Rightarrow> real \<Rightarrow> rng \<Rightarrow> error + (buffer \<times> rng)" where
  \<comment> \<open>the constant \<open>contentNeedCrypt\<close> of \<open>rsaEncrypt\<close>: the content behind random letters
      and the separator\<close>
  "rsaEncrypt_contentNeedCrypt content splitBar keyLength g =
     (let splitBarBuffer = Buffer_from splitBar;
          restLength = keyLength / 8 - real (length splitBarBuffer) - real (length content)
      in case getRandomBytes restLength g of
           Inl e \<Rightarrow> Inl e
         | Inr (filler, g') \<Rightarrow> Inr (concat [filler, splitBarBuffer, content], g'))"

definition rsaEncrypt ::
  "filesystem \<Rightarrow> buffer \<Rightarrow> jsstring \<Rightarrow> jsstring \<Rightarrow> real \<Rightarrow> encoding option \<Rightarrow> rng
     \<Rightarrow> error + (jsstring \<times> rng)" where
  \<comment> \<open>\<open>rsaEncrypt(content, {splitBar, pubKeyPath, keyLength, outputEncoding = 'base64'})\<close>;
      the destructured options are arguments\<close>
  "rsaEncrypt fs content splitBar pubKeyPath keyLength outputEncoding g =
     (case rsaEncrypt_contentNeedCrypt content splitBar keyLength g of
        Inl e \<Rightarrow> Inl e
      | Inr (contentNeedCrypt, g') \<Rightarrow>
          (case readFileSync fs pubKeyPath of
             Inl e \<Rightarrow> Inl e
           | Inr k \<Rightarrow>
               (case publicEncrypt k contentNeedCrypt of
                  Inl e \<Rightarrow> Inl e
                | Inr res \<Rightarrow> Inr (toString res (default_to Base64 outputEncoding), g'))))"

definition rsaDecrypt_decryptedData ::
  "filesystem \<Rightarrow> jsstring \<Rightarrow> jsstring \<Rightarrow> encoding option \<Rightarrow> encoding option
     \<Rightarrow> error + jsstring" where
  \<comment> \<open>the constant \<open>decryptedData\<close> of \<open>rsaDecrypt\<close>: the decrypted block as text\<close>
  "rsaDecrypt_decryptedData fs content priKeyPath outputEncoding inputEncoding =
     (let contentNeedDecrypt = Buffer_from_encoded content (default_to Base64 inputEncoding)
      in case readFileSync fs priKeyPath of
           Inl e \<Rightarrow> Inl e
         | Inr k \<Rightarrow>
             (case privateDecrypt k contentNeedDecrypt of
                Inl e \<Rightarrow> Inl e
              | Inr buf \<Rightarrow> Inr (toString buf (default_to Utf8 outputEncoding))))"

definition rsaDecrypt ::
  "filesystem \<Rightarrow> jsstring \<Rightarrow> jsstring \<Rightarrow> jsstring \<Rightarrow> encoding option \<Rightarrow> encoding option
     \<Rightarrow> error + jsstring option" where
  \<comment> \<open>\<open>rsaDecrypt(content, {splitBar, priKeyPath, outputEncoding = 'utf8',
      inputEncoding = 'base64'})\<close>; the result is a string or \<open>undefined\<close>\<close>
  "rsaDecrypt fs content splitBar priKeyPath outputEncoding inputEncoding =
     (case rsaDecrypt_decryptedData fs content priKeyPath outputEncoding inputEncoding of
        Inl e \<Rightarrow> Inl e
      | Inr decryptedData \<Rightarrow> Inr (element_at (split decryptedData splitBar) 1))"

section \<open>AES encryption and decryption\<close>

text \<open>
  The cipher is the platform's. \<open>crypto.createCipheriv(algorithm, key, iv)\<close> returns a
  cipher object or throws; the source calls \<open>update\<close> on it once and then \<open>final\<close>. A
  cipher object is modelled by what these two calls do to the bytes: \<open>update\<close> maps the
  data to the bytes it emits and leaves what \<open>final\<close> will do, emit the last bytes or
  throw. With an output encoding, \<open>update\<close> and \<open>final\<close> pass the bytes they emit through
  one string decoder of the platform: \<open>write\<close> for the bytes of \<open>update\<close>, which may hold
  back a unit that is not complete, and \<open>end\<close> for the bytes of \<open>final\<close>.
\<close>

datatype content = Buf buffer | Str jsstring

type_synonym cipher = "buffer \<Rightarrow> buffer \<times> (error + buffer)"

type_synonym decoder = "buffer \<Rightarrow> jsstring \<times> (buffer \<Rightarrow> jsstring)"

record platform =
  createCipheriv :: "jsstring \<Rightarrow> buffer \<Rightarrow> buffer \<Rightarrow> error + cipher"
  createDecipheriv :: "jsstring \<Rightarrow> buffer \<Rightarrow> buffer \<Rightarrow> error + cipher"
  StringDecoder :: "encoding \<Rightarrow> decoder"

definition content_bytes :: "content \<Rightarrow> encoding option \<Rightarrow> buffer" where
  \<comment> \<open>the data of \<open>update(data, inputEncoding, ...)\<close> as bytes: a buffer as it is, a string
      in the input encoding, utf8 when the encoding is the empty string\<close>
  "content_bytes data inputEncoding =
     (case data of
        Buf b \<Rightarrow> b
      | Str s \<Rightarrow> Buffer_from_encoded s (default_to Utf8 inputEncoding))"

type_synonym cipher_updated = "(error + buffer) \<times> (buffer \<Rightarrow> jsstring) \<times> encoding"

definition Cipher_update ::
  "platform \<Rightarrow> cipher \<Rightarrow> content \<Rightarrow> encoding option \<Rightarrow> encoding
     \<Rightarrow> jsstring \<times> cipher_updated" where
  \<comment> \<open>\<open>cipher.update(data, inputEncoding, outputEncoding)\<close>: the string returned, and the
      object after the call: what \<open>final\<close> will emit, the \<open>end\<close> of the decoder, and the
      encoding the decoder was made for\<close>
  "Cipher_update P c data inputEncoding outputEncoding =
     (let (emitted, rest) = c (content_bytes data inputEncoding);
          (s, finish) = StringDecoder P outputEncoding emitted
      in (s, (rest, finish, outputEncoding)))"

definition Cipher_final :: "cipher_updated \<Rightarrow> encoding \<Rightarrow> error + jsstring" where
  \<comment> \<open>\<open>cipher.final(outputEncoding)\<close>: the last bytes through the decoder of \<open>update\<close>,
      whose encoding cannot be changed\<close>
  "Cipher_final obj outputEncoding =
     (case obj of (rest, finish, enc) \<Rightarrow>
        (case rest of
           Inl e \<Rightarrow> Inl e
         | Inr emitted \<Rightarrow>
             if enc = outputEncoding then Inr (finish emitted) else Inl ERR_ASSERTION))"

definition aesEncrypt ::
  "platform \<Rightarrow> content \<Rightarrow> jsstring \<Rightarrow> buffer \<Rightarrow> buffer \<Rightarrow> encoding option \<Rightarrow> encoding option
     \<Rightarrow> error + jsstring" where
  \<comment> \<open>\<open>aesEncrypt(content, {algorithm, key, iv, inputEncoding = '', outputEncoding =
      'base64'})\<close>; no input encoding is the empty string of the default; \<open>k\<close> and \<open>v\<close> are
      the options \<open>key\<close> and \<open>iv\<close>\<close>
  "aesEncrypt P content algorithm k v inputEncoding outputEncoding =
     (case createCipheriv P algorithm k v of
        Inl e \<Rightarrow> Inl e
      | Inr cipheriv \<Rightarrow>
          (let (encryptedData, cipheriv') =
                 Cipher_update P cipheriv content inputEncoding (default_to Base64 outputEncoding)
           in case Cipher_final cipheriv' (default_to Base64 outputEncoding) of
                Inl e \<Rightarrow> Inl e
              | Inr s \<Rightarrow> Inr (encryptedData @ s)))"

definition aesDecrypt ::
  "platform \<Rightarrow> content \<Rightarrow> jsstring \<Rightarrow> buffer \<Rightarrow> buffer \<Rightarrow> encoding option \<Rightarrow> encoding option
     \<Rightarrow> error + jsstring" where
  \<comment> \<open>\<open>aesDecrypt(content, {algorithm, key, iv, inputEncoding = 'base64', outputEncoding =
      'utf8'})\<close>\<close>
  "aesDecrypt P content algorithm k v inputEncoding outputEncoding =
     (case createDecipheriv P algorithm k v of
        Inl e \<Rightarrow> Inl e
      | Inr decipheriv \<Rightarrow>
          (let (decryptedData, decipheriv') =
                 Cipher_update P decipheriv content (Some (default_to Base64 inputEncoding))
                   (default_to Utf8 outputEncoding)
           in case Cipher_final decipheriv' (default_to Utf8 outputEncoding) of
                Inl e \<Rightarrow> Inl e
              | Inr s \<Rightarrow> Inr (decryptedData @ s)))"

section \<open>Notions the properties are stated with\<close>

definition lowercase_unit :: "code_unit \<Rightarrow> bool" where
  \<comment> \<open>a code unit that is one of the 26 letters \<open>a\<close> to \<open>z\<close>\<close>
  "lowercase_unit u \<longleftrightarrow> 0x61 \<le> u \<and> u \<le> 0x7A"

definition lowercase_ascii :: "byte \<Rightarrow> bool" where
  \<comment> \<open>a byte that is one of the 26 letters \<open>a\<close> to \<open>z\<close>\<close>
  "lowercase_ascii b \<longleftrightarrow> 0x61 \<le> b \<and> b \<le> 0x7A"

definition occurs_at :: "'a list \<Rightarrow> 'a list \<Rightarrow> nat \<Rightarrow> bool" where
  \<comment> \<open>the sequence \<open>R\<close> occurs in \<open>S\<close> at position \<open>i\<close>\<close>
  "occurs_at S R i \<longleftrightarrow> i + length R \<le> length S \<and> take (length R) (drop i S) = R"

definition first_occurrence :: "'a list \<Rightarrow> 'a list \<Rightarrow> nat option" where
  \<comment> \<open>the first position at which \<open>R\<close> occurs in \<open>S\<close>, if it occurs\<close>
  "first_occurrence S R = find (occurs_at S R) [0..<Suc (length S)]"

definition segment_until_next :: "'a list \<Rightarrow> 'a list \<Rightarrow> 'a list" where
  \<comment> \<open>\<open>T\<close> up to the first occurrence of \<open>R\<close> in it, or all of \<open>T\<close> without one\<close>
  "segment_until_next T R = (case first_occurrence T R of None \<Rightarrow> T | Some k \<Rightarrow> take k T)"

definition rendered_exactly :: "encoding \<Rightarrow> buffer \<Rightarrow> bool" where
  \<comment> \<open>the bytes can be read back from their text in the encoding\<close>
  "rendered_exactly enc b \<longleftrightarrow> Buffer_from_encoded (toString b enc) enc = b"

definition decoder_consistent :: "decoder \<Rightarrow> encoding \<Rightarrow> bool" where
  \<comment> \<open>the contract of a string decoder: on bytes with an exact text, what \<open>write\<close> and
      \<open>end\<close> return is, together, the text of all the bytes\<close>
  "decoder_consistent D enc \<longleftrightarrow>
     (\<forall>u f. rendered_exactly enc (u @ f) \<longrightarrow> fst (D u) @ snd (D u) f = toString (u @ f) enc)"

definition decipher_inverts :: "cipher \<Rightarrow> cipher \<Rightarrow> bool" where
  \<comment> \<open>the contract of a cipher and the decipher of the same algorithm, key and
      initialisation vector: encryption does not fail, and decrypting all the bytes it
      emitted succeeds and emits the data\<close>
  "decipher_inverts dc c \<longleftrightarrow>
     (\<forall>data. \<exists>f q. snd (c data) = Inr f \<and> snd (dc (fst (c data) @ f)) = Inr q \<and>
        fst (dc (fst (c data) @ f)) @ q = data)"


section \<open>The random source: length and alphabet\<close>

lemma letters_lowercase: "\<forall>u\<in>set letters. lowercase_unit u"
  by (simp add: letters_def js_def lowercase_unit_def)

lemma undefined_lowercase: "\<forall>u\<in>set (js ''undefined''). lowercase_unit u"
  by (simp add: js_def lowercase_unit_def)

lemma char_at_letters:
  "char_at letters i \<noteq> [] \<and> (\<forall>u\<in>set (char_at letters i). lowercase_unit u)"
  using letters_lowercase undefined_lowercase
  by (auto simp: char_at_def js_def)

lemma loop_appends:
  "getRandomString_loop len str count g = (s, g') \<Longrightarrow>
   \<exists>t. s = str @ t \<and> (\<forall>u\<in>set t. lowercase_unit u) \<and> nat \<lceil>len\<rceil> - count \<le> length t"
proof (induction len str count g arbitrary: s g' rule: getRandomString_loop.induct)
  case (1 len str count g)
  show ?case
  proof (cases "real count < len")
    case False
    then have "nat \<lceil>len\<rceil> \<le> count" by linarith
    with False "1.prems" show ?thesis
      by (simp add: getRandomString_loop.simps [of len str count g])
  next
    case True
    obtain r g1 where rg: "Math_random g = (r, g1)" by (cases "Math_random g")
    let ?c = "char_at letters \<lfloor>r * 26\<rfloor>"
    from True rg "1.prems" have rec: "getRandomString_loop len (str @ ?c) (Suc count) g1 = (s, g')"
      by (simp add: getRandomString_loop.simps [of len str count g])
    from "1.IH" [OF True rg [symmetric] refl rec]
    obtain t where t: "s = (str @ ?c) @ t" "\<forall>u\<in>set t. lowercase_unit u"
      "nat \<lceil>len\<rceil> - Suc count \<le> length t" by blast
    have c: "?c \<noteq> []" "\<forall>u\<in>set ?c. lowercase_unit u"
      using char_at_letters by blast+
    then have "1 \<le> length ?c" by (cases ?c) auto
    with t have "nat \<lceil>len\<rceil> - count \<le> length (?c @ t)" by simp
    moreover have "\<forall>u\<in>set (?c @ t). lowercase_unit u" using c t by auto
    moreover have "s = str @ (?c @ t)" using t by simp
    ultimately show ?thesis by blast
  qed
qed

lemma of_nat_unat_ucast: "(of_nat (unat (u::code_unit)) :: byte) = ucast u"
  by simp

lemma ascii_no_surrogate:
  "(u::code_unit) < 0x80 \<Longrightarrow> \<not> is_high_surrogate u \<and> \<not> is_low_surrogate u"
  by (auto simp: is_high_surrogate_def is_low_surrogate_def word_le_nat_alt word_less_nat_alt)

lemma utf8_bytes_ascii: "(u::code_unit) < 0x80 \<Longrightarrow> utf8_bytes (unat u) = [ucast u]"
  by (simp add: utf8_bytes_def word_less_nat_alt of_nat_unat_ucast)

lemma utf8_chunks_ascii: "\<forall>u\<in>set s. u < 0x80 \<Longrightarrow> utf8_chunks s = map (\<lambda>u. [ucast u]) s"
  by (induction s rule: utf8_chunks.induct) (simp_all add: ascii_no_surrogate utf8_bytes_ascii)

lemma write_chunks_singletons: "write_chunks (map (\<lambda>u. [f u]) s) room = map f (take room s)"
proof (induction s arbitrary: room)
  case Nil
  show ?case by simp
next
  case (Cons u s)
  show ?case
  proof (cases room)
    case 0
    then show ?thesis by simp
  next
    case (Suc m)
    with Cons show ?thesis by simp
  qed
qed

lemma buffer_write_ascii:
  assumes "\<forall>u\<in>set s. u < 0x80" and "length buf \<le> length s"
  shows "buffer_write buf s = map ucast (take (length buf) s)"
  using assms by (simp add: buffer_write_def Let_def utf8_chunks_ascii write_chunks_singletons)

lemma lowercase_unit_ascii: "lowercase_unit u \<Longrightarrow> u < 0x80"
  by (simp add: lowercase_unit_def word_le_nat_alt word_less_nat_alt)

lemma lowercase_ucast: "lowercase_unit u \<Longrightarrow> lowercase_ascii (ucast u)"
  by (simp add: lowercase_unit_def lowercase_ascii_def word_le_nat_alt unsigned_ucast_eq
      take_bit_eq_mod)

lemma getRandomBytes_real:
  assumes "0 \<le> sz"
  shows "\<exists>bs g'. getRandomBytes sz g = Inr (bs, g') \<and> length bs = nat \<lfloor>sz\<rfloor> \<and>
           (\<forall>b\<in>set bs. lowercase_ascii b)"
proof -
  let ?n = "nat \<lfloor>sz\<rfloor>"
  obtain s g' where sg: "getRandomString sz g = (s, g')"
    by (cases "getRandomString sz g")
  then obtain t where t: "s = [] @ t" "\<forall>u\<in>set t. lowercase_unit u" "nat \<lceil>sz\<rceil> - 0 \<le> length t"
    unfolding getRandomString_def using loop_appends by blast
  have st: "s = t"
    using t(1) by simp
  have "?n \<le> nat \<lceil>sz\<rceil>"
    by linarith
  moreover have "nat \<lceil>sz\<rceil> \<le> length t"
    using t(3) by (simp only: diff_zero)
  ultimately have "?n \<le> length t"
    by (rule order_trans)
  with st t(2) have len: "?n \<le> length s" and low: "\<forall>u\<in>set s. lowercase_unit u"
    by simp_all
  have alloc: "Buffer_alloc sz = Inr (replicate ?n 0)"
    using assms by (simp add: Buffer_alloc_def)
  have w: "buffer_write (replicate ?n 0) s = map ucast (take ?n s)"
    using buffer_write_ascii [of s "replicate ?n 0"] len low lowercase_unit_ascii by simp
  have res: "getRandomBytes sz g = Inr (map ucast (take ?n s), g')"
    by (simp add: getRandomBytes_def alloc sg w)
  have "\<forall>b\<in>set (map ucast (take ?n s) :: buffer). lowercase_ascii b"
    using low lowercase_ucast by (auto dest: in_set_takeD)
  with res len show ?thesis by simp
qed

lemma getRandomBytes_nat:
  "\<exists>bs g'. getRandomBytes (real n) g = Inr (bs, g') \<and> length bs = n \<and>
     (\<forall>b\<in>set bs. lowercase_ascii b)"
  using getRandomBytes_real [of "real n" g] by simp

text \<open>
  C6. For every non-negative integer size, \<open>getRandomBytes(size)\<close> returns a buffer of
  exactly \<open>size\<close> bytes, each of them one of the 26 lowercase ASCII letters, whatever
  numbers the random source yields; for size 0 it returns the empty buffer and raises
  nothing.
\<close>

theorem getRandomBytes_exact_size_lowercase:
  "(\<exists>bs g'. getRandomBytes (real n) g = Inr (bs, g') \<and> length bs = n \<and>
      (\<forall>b\<in>set bs. lowercase_ascii b)) \<and>
   getRandomBytes 0 g = Inr ([], g)"
proof
  show "\<exists>bs g'. getRandomBytes (real n) g = Inr (bs, g') \<and> length bs = n \<and>
      (\<forall>b\<in>set bs. lowercase_ascii b)"
    by (rule getRandomBytes_nat)
  show "getRandomBytes 0 g = Inr ([], g)"
    by (simp add: getRandomBytes_def Buffer_alloc_def getRandomString_def buffer_write_def
        getRandomString_loop.simps [of 0 "[]" 0 g])
qed

theorem getRandomBytes_exact_size_lowercase_witness:
  "getRandomBytes (real (3::nat)) (\<lambda>k. 1/2) = Inr ([0x6E, 0x6E, 0x6E], \<lambda>k. 1/2) \<and>
   length [0x6E, 0x6E, 0x6E :: byte] = 3 \<and> 0x6E \<in> set [0x6E, 0x6E, 0x6E :: byte] \<and>
   lowercase_ascii 0x6E"
proof -
  have run: "getRandomBytes (real (3::nat)) (\<lambda>k. 1/2) = Inr ([0x6E, 0x6E, 0x6E], \<lambda>k. 1/2)"
    by (simp add: getRandomBytes_def Buffer_alloc_def getRandomString_def buffer_write_def
        getRandomString_loop.simps Math_random_def char_at_def letters_def js_def
        utf8_bytes_def is_high_surrogate_def is_low_surrogate_def)
  from getRandomBytes_exact_size_lowercase [of 3 "\<lambda>k. 1/2"] run
  show ?thesis by auto
qed

section \<open>AES key and initialisation vector: lengths\<close>

text \<open>
  C7. For every key length in bits that is a multiple of 8, \<open>genAESKeyAndIv\<close> returns a
  key of exactly a eighth of it in bytes and an initialisation vector of exactly 16 bytes;
  called without an argument (256 bits) the key has 32 bytes. The witness is the call with
  128, whose key has 16 bytes.
\<close>

theorem genAESKeyAndIv_lengths:
  assumes "8 dvd n"
  shows "(\<exists>r g'. genAESKeyAndIv (real n) g = Inr (r, g') \<and>
            length (key r) = n div 8 \<and> length (iv r) = 16) \<and>
         (\<exists>r g'. genAESKeyAndIv_default g = Inr (r, g') \<and>
            length (key r) = 32 \<and> length (iv r) = 16)"
proof -
  have gen: "\<exists>r g'. genAESKeyAndIv (real (8 * m)) g = Inr (r, g') \<and>
            length (key r) = m \<and> length (iv r) = 16" for m
  proof -
    obtain k g1 where k: "getRandomBytes (real m) g = Inr (k, g1)" "length k = m"
      using getRandomBytes_nat [of m g] by blast
    obtain v g2 where v: "getRandomBytes (real (16::nat)) g1 = Inr (v, g2)" "length v = 16"
      using getRandomBytes_nat [of 16 g1] by blast
    from k v have "genAESKeyAndIv (real (8 * m)) g = Inr (\<lparr>key = k, iv = v\<rparr>, g2)"
      by (simp add: genAESKeyAndIv_def)
    with k v show ?thesis by simp
  qed
  from assms obtain m where m: "n = 8 * m" by (auto simp: dvd_def)
  have "\<exists>r g'. genAESKeyAndIv (real n) g = Inr (r, g') \<and>
            length (key r) = n div 8 \<and> length (iv r) = 16"
    using gen [of m] m by simp
  moreover have "\<exists>r g'. genAESKeyAndIv_default g = Inr (r, g') \<and>
            length (key r) = 32 \<and> length (iv r) = 16"
    using gen [of 32] by (simp add: genAESKeyAndIv_default_def)
  ultimately show ?thesis by blast
qed

theorem genAESKeyAndIv_lengths_witness:
  "8 dvd (128::nat) \<and>
   (\<exists>r g'. genAESKeyAndIv (real (128::nat)) (\<lambda>k. 1/2) = Inr (r, g') \<and>
      length (key r) = 16 \<and> length (iv r) = 16)"
  using genAESKeyAndIv_lengths [of 128 "\<lambda>k. 1/2"] by simp

section \<open>The padded block of \<open>rsaEncrypt\<close>\<close>

lemma bar_bytes: "Buffer_from (js ''||'') = [0x7C, 0x7C]"
  by (simp add: Buffer_from_def js_def utf8_bytes_def is_high_surrogate_def is_low_surrogate_def)



text \<open>
  C2, as the source has it. \<open>rsaEncrypt\<close> has no check of its own for a content and
  separator that exceed the modulus. With a 2048-bit key, a content of 256 bytes and the
  separator \<open>||\<close> the rest length is -2; it is passed to \<open>getRandomBytes\<close>, and the error
  of the call is the RangeError of \<open>Buffer.alloc(-2)\<close>, although no key file exists.
\<close>

theorem rsaEncrypt_overflow_counterexample:
  "getRandomBytes (- 2) (\<lambda>k. 1/2) = Inl (ERR_OUT_OF_RANGE (- 2)) \<and>
   rsaEncrypt Map.empty (replicate 256 0x41) (js ''||'') (js ''pub.pem'') 2048 None (\<lambda>k. 1/2)
     = Inl (ERR_OUT_OF_RANGE (- 2))"
  by (simp add: rsaEncrypt_def rsaEncrypt_contentNeedCrypt_def Let_def getRandomBytes_def
      Buffer_alloc_def bar_bytes)

text \<open>
  C2, amended. Whenever the rest length is negative, \<open>rsaEncrypt\<close> fails and returns no
  ciphertext: \<open>getRandomBytes\<close> is called with the negative rest length and its
  \<open>Buffer.alloc\<close> throws the RangeError that carries it, before a random letter is
  drawn, the block is built or the key file is read.
\<close>

theorem rsaEncrypt_overflow_is_alloc_error:
  assumes "keyLength / 8 - real (length (Buffer_from splitBar)) - real (length content) < 0"
  shows "getRandomBytes (keyLength / 8 - real (length (Buffer_from splitBar)) - real (length content)) g
           = Inl (ERR_OUT_OF_RANGE
               (keyLength / 8 - real (length (Buffer_from splitBar)) - real (length content))) \<and>
         rsaEncrypt fs content splitBar pubKeyPath keyLength outputEncoding g
           = Inl (ERR_OUT_OF_RANGE
               (keyLength / 8 - real (length (Buffer_from splitBar)) - real (length content)))"
  using assms
  by (simp add: rsaEncrypt_def rsaEncrypt_contentNeedCrypt_def Let_def getRandomBytes_def
      Buffer_alloc_def)

theorem rsaEncrypt_overflow_is_alloc_error_witness:
  "2048 / 8 - real (length (Buffer_from (js ''||''))) - real (length (replicate 256 (0x41::byte))) < 0 \<and>
   rsaEncrypt Map.empty (replicate 256 0x41) (js ''||'') (js ''pub.pem'') 2048 None (\<lambda>k. 1/2)
     = Inl (ERR_OUT_OF_RANGE (2048 / 8 - real (length (Buffer_from (js ''||'')))
         - real (length (replicate 256 (0x41::byte)))))"
proof -
  have h: "2048 / 8 - real (length (Buffer_from (js ''||''))) - real (length (replicate 256 (0x41::byte))) < 0"
    by (simp add: bar_bytes)
  from rsaEncrypt_overflow_is_alloc_error [OF h] h show ?thesis by blast
qed

section \<open>The split of the decrypted text\<close>

lemma SplitMatcher_occurs: "SplitMatcher S q R = (if occurs_at S R q then Some (q + length R) else None)"
  by (simp add: SplitMatcher_def occurs_at_def)

lemma split_loop_end: "length S \<le> q \<Longrightarrow> split_loop S R p q = [drop p S]"
  by (simp add: split_loop.simps [of S R p q])

lemma split_loop_no_match:
  "q < length S \<Longrightarrow> \<not> occurs_at S R q \<Longrightarrow> split_loop S R p q = split_loop S R p (Suc q)"
  by (simp add: split_loop.simps [of S R p q] SplitMatcher_occurs)

lemma split_loop_match:
  "q < length S \<Longrightarrow> occurs_at S R q \<Longrightarrow> q + length R \<noteq> p \<Longrightarrow>
   split_loop S R p q = take (q - p) (drop p S) # split_loop S R (q + length R) (q + length R)"
  by (simp add: split_loop.simps [of S R p q] SplitMatcher_occurs)

lemma split_loop_skip:
  "q + k \<le> length S \<Longrightarrow> \<forall>j<k. \<not> occurs_at S R (q + j) \<Longrightarrow>
   split_loop S R p q = split_loop S R p (q + k)"
proof (induction k)
  case 0
  show ?case by simp
next
  case (Suc k)
  then have "split_loop S R p q = split_loop S R p (q + k)"
    by simp
  also have "\<dots> = split_loop S R p (Suc (q + k))"
    using Suc.prems by (intro split_loop_no_match) auto
  finally show ?case by simp
qed

lemma split_loop_shift:
  "split_loop S R (k + p) (k + q) = split_loop (drop k S) R p q"
proof (induction "drop k S" R p q rule: split_loop.induct)
  case (1 R p q)
  show ?case
  proof (cases "q < length (drop k S)")
    case False
    then have "\<not> k + q < length S" by simp
    with False show ?thesis
      by (simp only: split_loop.simps [of S R "k + p" "k + q"]
          split_loop.simps [of "drop k S" R p q] if_False drop_drop add.commute)
  next
    case True
    then have kq: "k + q < length S" by simp
    have occ: "occurs_at S R (k + q) = occurs_at (drop k S) R q"
      using kq by (auto simp: occurs_at_def add.commute)
    show ?thesis
    proof (cases "occurs_at (drop k S) R q")
      case False
      with True kq occ "1.hyps"(1) [OF True] show ?thesis
        by (simp add: split_loop.simps [of S R "k + p" "k + q"]
            split_loop.simps [of "drop k S" R p q] SplitMatcher_occurs)
    next
      case occT: True
      show ?thesis
      proof (cases "q + length R = p")
        case eq: True
        with True kq occ occT "1.hyps"(2) [OF True, of "q + length R"] show ?thesis
          by (simp add: split_loop.simps [of S R "k + p" "k + q"]
              split_loop.simps [of "drop k S" R p q] SplitMatcher_occurs)
      next
        case neq: False
        with True kq occ occT "1.hyps"(3) [OF True, of "q + length R"] show ?thesis
          by (simp add: split_loop.simps [of S R "k + p" "k + q"]
              split_loop.simps [of "drop k S" R p q] SplitMatcher_occurs ac_simps)
      qed
    qed
  qed
qed

lemma split_loop_empty_separator:
  "p < length S \<Longrightarrow> split_loop S [] p p = map (\<lambda>c. [c]) (drop p S)"
proof (induction "length S - p" arbitrary: p)
  case 0
  then show ?case by simp
next
  case (Suc d)
  have occ: "occurs_at S [] j" if "j \<le> length S" for j
    using that by (simp add: occurs_at_def)
  have step1: "split_loop S [] p p = split_loop S [] p (Suc p)"
    using Suc.prems occ [of p]
    by (simp add: split_loop.simps [of S "[]" p p] SplitMatcher_occurs)
  have dr: "drop p S = S ! p # drop (Suc p) S"
    using Suc.prems by (simp add: Cons_nth_drop_Suc)
  show ?case
  proof (cases "Suc p < length S")
    case True
    have "split_loop S [] p (Suc p) = take 1 (drop p S) # split_loop S [] (Suc p) (Suc p)"
      using True occ [of "Suc p"] split_loop_match [of "Suc p" S "[]" p] by simp
    moreover have "split_loop S [] (Suc p) (Suc p) = map (\<lambda>c. [c]) (drop (Suc p) S)"
      using Suc.hyps True by (intro Suc.hyps(1)) auto
    ultimately show ?thesis
      using step1 dr by simp
  next
    case False
    with Suc.prems have "drop (Suc p) S = []" by simp
    moreover have "split_loop S [] p (Suc p) = [drop p S]"
      using False by (intro split_loop_end) simp
    ultimately show ?thesis
      using step1 dr by simp
  qed
qed

lemma split_empty_separator: "split S [] = map (\<lambda>c. [c]) S"
  using split_loop_empty_separator [of 0 S]
  by (cases "S = []") (simp_all add: split_def SplitMatcher_def)

lemma split_no_occurrence:
  assumes "\<forall>i. \<not> occurs_at S R i"
  shows "split S R = [S]"
proof (cases "S = []")
  case True
  with assms show ?thesis
    by (simp add: split_def SplitMatcher_occurs)
next
  case False
  have "split_loop S R 0 0 = split_loop S R 0 (0 + length S)"
    using assms by (intro split_loop_skip) auto
  also have "\<dots> = [S]"
    by (simp add: split_loop_end)
  finally show ?thesis
    using False by (simp add: split_def)
qed

lemma split_first_occurrence:
  assumes "R \<noteq> []" and "\<forall>j<length F. \<not> occurs_at (F @ R @ T) R j"
  shows "split (F @ R @ T) R = F # split T R"
proof -
  let ?S = "F @ R @ T"
  have start: "split ?S R = split_loop ?S R 0 0"
    using assms(1) by (simp add: split_def)
  have occ: "occurs_at ?S R (length F)"
    by (simp add: occurs_at_def)
  have "split_loop ?S R 0 0 = split_loop ?S R 0 (0 + length F)"
    using assms(2) by (intro split_loop_skip) auto
  also have "\<dots> = take (length F) ?S # split_loop ?S R (length F + length R) (length F + length R)"
    using split_loop_match [of "length F" ?S R 0] occ assms(1) by simp
  also have "split_loop ?S R (length F + length R) (length F + length R)
      = split_loop (drop (length F + length R) ?S) R 0 0"
    using split_loop_shift [of ?S R "length F + length R" 0 0] by simp
  also have "drop (length F + length R) ?S = T"
    by simp
  also have "split_loop T R 0 0 = split T R"
  proof (cases "T = []")
    case True
    with assms(1) show ?thesis
      by (simp add: split_def SplitMatcher_def split_loop_end)
  next
    case False
    then show ?thesis by (simp add: split_def)
  qed
  finally show ?thesis
    using start by simp
qed

lemma occurs_at_bound: "occurs_at S R i \<Longrightarrow> i \<le> length S"
  by (simp add: occurs_at_def)

lemma first_occurrence_None: "first_occurrence S R = None \<longleftrightarrow> (\<forall>i. \<not> occurs_at S R i)"
  using occurs_at_bound [of S R]
  by (auto simp: first_occurrence_def find_None_iff less_Suc_eq_le simp del: upt_Suc)

lemma first_occurrence_Some:
  assumes "first_occurrence S R = Some i"
  shows "occurs_at S R i \<and> (\<forall>j<i. \<not> occurs_at S R j)"
proof -
  from assms obtain k where k: "k < length [0..<Suc (length S)]"
    "occurs_at S R ([0..<Suc (length S)] ! k)" "i = [0..<Suc (length S)] ! k"
    "\<forall>j<k. \<not> occurs_at S R ([0..<Suc (length S)] ! j)"
    unfolding first_occurrence_def find_Some_iff by blast
  have nth: "[0..<Suc (length S)] ! j = j" if "j < Suc (length S)" for j
    using that nth_upt [of 0 j "Suc (length S)"] by (simp del: upt_Suc)
  from k(1) have kl: "k < Suc (length S)" by (simp del: upt_Suc)
  then have ik: "i = k" using k(3) nth by simp
  have "\<not> occurs_at S R j" if "j < i" for j
  proof -
    from that ik kl have "j < k" "j < Suc (length S)" by simp_all
    with k(4) nth show ?thesis by metis
  qed
  moreover have "occurs_at S R i"
    using k(2) kl ik nth by metis
  ultimately show ?thesis by blast
qed

lemma split_at_first_occurrence:
  assumes "R \<noteq> []" and "first_occurrence S R = Some i"
  shows "\<exists>more. split S R = take i S # segment_until_next (drop (i + length R) S) R # more"
proof -
  from first_occurrence_Some [OF assms(2)]
  have occ: "occurs_at S R i" and first: "\<forall>j<i. \<not> occurs_at S R j" by blast+
  let ?T = "drop (i + length R) S"
  from occ have il: "i + length R \<le> length S" and m: "take (length R) (drop i S) = R"
    by (simp_all add: occurs_at_def)
  have S: "S = take i S @ R @ ?T"
    using m by (metis append_take_drop_id drop_drop add.commute)
  have li: "length (take i S) = i"
    using il by simp
  have "split (take i S @ R @ ?T) R = take i S # split ?T R"
    using assms(1) first S li by (intro split_first_occurrence) simp_all
  with S have sp: "split S R = take i S # split ?T R"
    by simp
  have "\<exists>more. split ?T R = segment_until_next ?T R # more"
  proof (cases "first_occurrence ?T R")
    case None
    then have "split ?T R = [?T]"
      by (simp add: first_occurrence_None split_no_occurrence)
    with None show ?thesis
      by (simp add: segment_until_next_def)
  next
    case (Some k)
    from first_occurrence_Some [OF Some]
    have occ': "occurs_at ?T R k" and first': "\<forall>j<k. \<not> occurs_at ?T R j" by blast+
    from occ' have kl: "k + length R \<le> length ?T" and m': "take (length R) (drop k ?T) = R"
      by (simp_all add: occurs_at_def)
    have T: "?T = take k ?T @ R @ drop (k + length R) ?T"
      using m' by (metis append_take_drop_id drop_drop add.commute)
    have lk: "length (take k ?T) = k"
      using kl by simp
    have "split (take k ?T @ R @ drop (k + length R) ?T) R
        = take k ?T # split (drop (k + length R) ?T) R"
      using assms(1) first' T lk by (intro split_first_occurrence) simp_all
    with T have "split ?T R = take k ?T # split (drop (k + length R) ?T) R"
      by simp
    with Some show ?thesis
      by (simp add: segment_until_next_def)
  qed
  with sp show ?thesis by auto
qed

text \<open>
  A run of the decryption that the closed theorems below share: a 64-bit key with the
  private exponent 3, and the ciphertext of the text \<open>qz||a||b\<close>.
\<close>

lemma toy_decrypt:
  "rsaDecrypt_decryptedData [js ''pri.pem'' \<mapsto> PrivateKey 18446743979220271189 3074457328438389437 3]
     (js ''+o8orFgwdlU='') (js ''pri.pem'') None None = Inr (js ''qz||a||b'')"
  by (simp add: rsaDecrypt_decryptedData_def default_to_def readFileSync_def privateDecrypt_def
      RSA_size.simps modpow.simps js_def unbase64_def utf8_first_def utf16_units_def Let_def)

text \<open>
  C3, as the source has it. The text \<open>qz||a||b\<close> is decrypted without error; the
  separator \<open>##\<close> does not occur in it; \<open>rsaDecrypt\<close> raises nothing and returns
  \<open>undefined\<close>.
\<close>

theorem rsaDecrypt_missing_delimiter_counterexample:
  "rsaDecrypt_decryptedData [js ''pri.pem'' \<mapsto> PrivateKey 18446743979220271189 3074457328438389437 3]
     (js ''+o8orFgwdlU='') (js ''pri.pem'') None None = Inr (js ''qz||a||b'') \<and>
   first_occurrence (js ''qz||a||b'') (js ''##'') = None \<and>
   rsaDecrypt [js ''pri.pem'' \<mapsto> PrivateKey 18446743979220271189 3074457328438389437 3]
     (js ''+o8orFgwdlU='') (js ''##'') (js ''pri.pem'') None None = Inr None"
proof -
  have "first_occurrence (js ''qz||a||b'') (js ''##'') = None"
    by (simp add: first_occurrence_def occurs_at_def js_def)
  moreover have "split (js ''qz||a||b'') (js ''##'') = [js ''qz||a||b'']"
    by (simp add: split_def split_loop.simps SplitMatcher_def js_def)
  ultimately show ?thesis
    by (simp add: rsaDecrypt_def toy_decrypt element_at_def)
qed

text \<open>
  C3, amended. Whenever the decrypted text does not contain the separator, \<open>rsaDecrypt\<close>
  raises no error and returns \<open>undefined\<close>: the split has the whole text as its only
  element, and index 1 is beyond it.
\<close>

theorem rsaDecrypt_missing_delimiter_undefined:
  assumes "rsaDecrypt_decryptedData fs content priKeyPath outputEncoding inputEncoding = Inr t"
    and "first_occurrence t splitBar = None"
  shows "rsaDecrypt fs content splitBar priKeyPath outputEncoding inputEncoding = Inr None"
  using assms
  by (simp add: rsaDecrypt_def first_occurrence_None split_no_occurrence element_at_def)

theorem rsaDecrypt_missing_delimiter_undefined_witness:
  "rsaDecrypt_decryptedData [js ''pri.pem'' \<mapsto> PrivateKey 18446743979220271189 3074457328438389437 3]
     (js ''+o8orFgwdlU='') (js ''pri.pem'') None None = Inr (js ''qz||a||b'') \<and>
   first_occurrence (js ''qz||a||b'') (js ''#'') = None \<and>
   rsaDecrypt [js ''pri.pem'' \<mapsto> PrivateKey 18446743979220271189 3074457328438389437 3]
     (js ''+o8orFgwdlU='') (js ''#'') (js ''pri.pem'') None None = Inr None"
proof -
  have h: "first_occurrence (js ''qz||a||b'') (js ''#'') = None"
    by (simp add: first_occurrence_def occurs_at_def js_def)
  from rsaDecrypt_missing_delimiter_undefined [OF toy_decrypt h] toy_decrypt h
  show ?thesis by blast
qed

text \<open>
  C4. For every separator, \<open>rsaDecrypt\<close> returns index 1 of the split of the decrypted
  text. When the text contains the separator, first at position \<open>i\<close>, and the separator
  is not the empty string, that is the segment that starts behind this first occurrence
  and ends at the next occurrence, if there is one: not the whole remainder. The witness
  has the separator twice, and the result is the text between the two. What index 1 is
  for the empty separator is the subject of C10.
\<close>

theorem rsaDecrypt_segment_after_first_delimiter:
  assumes "rsaDecrypt_decryptedData fs content priKeyPath outputEncoding inputEncoding = Inr t"
  shows "rsaDecrypt fs content splitBar priKeyPath outputEncoding inputEncoding
           = Inr (element_at (split t splitBar) 1) \<and>
         (\<forall>i. splitBar \<noteq> [] \<and> first_occurrence t splitBar = Some i \<longrightarrow>
            rsaDecrypt fs content splitBar priKeyPath outputEncoding inputEncoding
              = Inr (Some (segment_until_next (drop (i + length splitBar) t) splitBar)))"
proof (intro conjI allI impI)
  show "rsaDecrypt fs content splitBar priKeyPath outputEncoding inputEncoding
      = Inr (element_at (split t splitBar) 1)"
    using assms by (simp add: rsaDecrypt_def)
next
  fix i
  assume "splitBar \<noteq> [] \<and> first_occurrence t splitBar = Some i"
  then have ne: "splitBar \<noteq> []" and occ: "first_occurrence t splitBar = Some i"
    by blast+
  from split_at_first_occurrence [OF ne occ] obtain more where
    "split t splitBar = take i t # segment_until_next (drop (i + length splitBar) t) splitBar # more"
    by blast
  with assms show "rsaDecrypt fs content splitBar priKeyPath outputEncoding inputEncoding
      = Inr (Some (segment_until_next (drop (i + length splitBar) t) splitBar))"
    by (simp add: rsaDecrypt_def element_at_def)
qed

theorem rsaDecrypt_segment_after_first_delimiter_witness:
  "rsaDecrypt_decryptedData [js ''pri.pem'' \<mapsto> PrivateKey 18446743979220271189 3074457328438389437 3]
     (js ''+o8orFgwdlU='') (js ''pri.pem'') None None = Inr (js ''qz||a||b'') \<and>
   js ''||'' \<noteq> [] \<and>
   first_occurrence (js ''qz||a||b'') (js ''||'') = Some 2 \<and>
   rsaDecrypt [js ''pri.pem'' \<mapsto> PrivateKey 18446743979220271189 3074457328438389437 3]
     (js ''+o8orFgwdlU='') (js ''||'') (js ''pri.pem'') None None = Inr (Some (js ''a''))"
proof -
  have h2: "js ''||'' \<noteq> []"
    by (simp add: js_def)
  have h3: "first_occurrence (js ''qz||a||b'') (js ''||'') = Some 2"
    by (simp add: first_occurrence_def occurs_at_def js_def)
  have seg: "segment_until_next (drop (2 + length (js ''||'')) (js ''qz||a||b'')) (js ''||'') = js ''a''"
    by (simp add: segment_until_next_def first_occurrence_def occurs_at_def js_def)
  from rsaDecrypt_segment_after_first_delimiter [OF toy_decrypt, of "js ''||''"] h2 h3
  have "rsaDecrypt [js ''pri.pem'' \<mapsto> PrivateKey 18446743979220271189 3074457328438389437 3]
     (js ''+o8orFgwdlU='') (js ''||'') (js ''pri.pem'') None None
     = Inr (Some (segment_until_next (drop (2 + length (js ''||'')) (js ''qz||a||b'')) (js ''||'')))"
    by blast
  then have "rsaDecrypt [js ''pri.pem'' \<mapsto> PrivateKey 18446743979220271189 3074457328438389437 3]
     (js ''+o8orFgwdlU='') (js ''||'') (js ''pri.pem'') None None = Inr (Some (js ''a''))"
    by (simp only: seg)
  with toy_decrypt h2 h3 show ?thesis by blast
qed

text \<open>
  C10. With the empty string as separator and a decrypted text of at least two
  characters, \<open>rsaDecrypt\<close> returns exactly the second character of the text.
\<close>

theorem rsaDecrypt_empty_delimiter_second_character:
  assumes "rsaDecrypt_decryptedData fs content priKeyPath outputEncoding inputEncoding = Inr t"
    and "2 \<le> length t"
  shows "rsaDecrypt fs content [] priKeyPath outputEncoding inputEncoding = Inr (Some [t ! 1])"
  using assms by (simp add: rsaDecrypt_def split_empty_separator element_at_def)

theorem rsaDecrypt_empty_delimiter_second_character_witness:
  "rsaDecrypt_decryptedData [js ''pri.pem'' \<mapsto> PrivateKey 18446743979220271189 3074457328438389437 3]
     (js ''+o8orFgwdlU='') (js ''pri.pem'') None None = Inr (js ''qz||a||b'') \<and>
   2 \<le> length (js ''qz||a||b'') \<and>
   rsaDecrypt [js ''pri.pem'' \<mapsto> PrivateKey 18446743979220271189 3074457328438389437 3]
     (js ''+o8orFgwdlU='') [] (js ''pri.pem'') None None = Inr (Some (js ''z''))"
proof -
  have h: "2 \<le> length (js ''qz||a||b'')"
    by (simp add: js_def)
  from rsaDecrypt_empty_delimiter_second_character [OF toy_decrypt h] toy_decrypt h
  show ?thesis by (simp add: js_def)
qed

section \<open>The filler cannot hold the separator\<close>

lemma lowercase_ascii_of_nat:
  "x < 256 \<Longrightarrow> lowercase_ascii (of_nat x) \<longleftrightarrow> 0x61 \<le> x \<and> x \<le> 0x7A"
  by (simp add: lowercase_ascii_def word_le_nat_alt unat_of_nat)

lemma lowercase_ascii_offset:
  "numeral a + x < 256 \<Longrightarrow>
   lowercase_ascii (numeral a + word_of_nat x) \<longleftrightarrow> 0x61 \<le> numeral a + x \<and> numeral a + x \<le> 0x7A"
  using lowercase_ascii_of_nat [of "numeral a + x"] by simp

lemma utf8_bytes_not_lowercase:
  assumes "cp < 0x110000" and "\<not> (0x61 \<le> cp \<and> cp \<le> 0x7A)"
  shows "\<not> lowercase_ascii (hd (utf8_bytes cp))"
proof -
  consider "cp < 0x80" | "0x80 \<le> cp" "cp < 0x800" | "0x800 \<le> cp" "cp < 0x10000" | "0x10000 \<le> cp"
    by linarith
  then show ?thesis
  proof cases
    case 1
    with assms(2) show ?thesis
      by (simp add: utf8_bytes_def lowercase_ascii_of_nat)
  next
    case 2
    then have "0xC0 + cp div 64 < 256" by simp
    with 2 show ?thesis
      by (simp add: utf8_bytes_def lowercase_ascii_offset)
  next
    case 3
    then have "0xE0 + cp div 4096 < 256" by simp
    with 3 show ?thesis
      by (simp add: utf8_bytes_def lowercase_ascii_offset)
  next
    case 4
    from assms(1) have "0xF0 + cp div 262144 < 256" by simp
    with 4 show ?thesis
      by (simp add: utf8_bytes_def lowercase_ascii_offset)
  qed
qed

lemma utf8_bytes_nonempty: "utf8_bytes cp \<noteq> []"
  by (simp add: utf8_bytes_def)

lemma lowercase_unit_unat: "lowercase_unit u \<longleftrightarrow> 0x61 \<le> unat u \<and> unat u \<le> 0x7A"
  by (simp add: lowercase_unit_def word_le_nat_alt)

lemma unat_code_unit_bound: "unat (u::code_unit) < 0x110000"
  using unsigned_less [of u, where 'a = nat] by simp

lemma surrogate_pair_bound:
  assumes "is_high_surrogate u" and "is_low_surrogate v"
  shows "0x10000 + (unat u - 0xD800) * 1024 + (unat v - 0xDC00) < 0x110000"
proof -
  from assms have "unat u \<le> 0xDBFF" "unat v \<le> 0xDFFF"
    by (simp_all add: is_high_surrogate_def is_low_surrogate_def word_le_nat_alt)
  then show ?thesis by simp
qed

lemma surrogate_not_lowercase:
  "is_high_surrogate u \<or> is_low_surrogate u \<Longrightarrow> \<not> lowercase_unit u"
  by (auto simp: is_high_surrogate_def is_low_surrogate_def lowercase_unit_def word_le_nat_alt)

lemma hd_in_concat: "c \<noteq> [] \<Longrightarrow> hd c \<in> set (concat (c # cs))"
  by (cases c) simp_all

lemma first_chunk_not_lowercase:
  assumes "\<not> lowercase_unit u"
  shows "\<exists>b\<in>set (concat (utf8_chunks (u # us))). \<not> lowercase_ascii b"
proof -
  have key: "\<exists>c cs. utf8_chunks (u # us) = c # cs \<and> c \<noteq> [] \<and> \<not> lowercase_ascii (hd c)"
  proof (cases us)
    case Nil
    show ?thesis
    proof (cases "is_high_surrogate u \<or> is_low_surrogate u")
      case True
      with Nil show ?thesis
        using utf8_bytes_not_lowercase [of "0xFFFD"] by (simp add: utf8_bytes_nonempty)
    next
      case False
      with Nil assms show ?thesis
        using utf8_bytes_not_lowercase [OF unat_code_unit_bound, of u]
        by (simp add: utf8_bytes_nonempty lowercase_unit_unat)
    qed
  next
    case (Cons v vs)
    show ?thesis
    proof (cases "is_high_surrogate u")
      case True
      show ?thesis
      proof (cases "is_low_surrogate v")
        case low: True
        from surrogate_pair_bound [OF True low] Cons True low show ?thesis
          using utf8_bytes_not_lowercase [of "0x10000 + (unat u - 0xD800) * 1024 + (unat v - 0xDC00)"]
          by (simp add: utf8_bytes_nonempty)
      next
        case False
        with Cons True show ?thesis
          using utf8_bytes_not_lowercase [of "0xFFFD"] by (simp add: utf8_bytes_nonempty)
      qed
    next
      case False
      show ?thesis
      proof (cases "is_low_surrogate u")
        case True
        with Cons False show ?thesis
          using utf8_bytes_not_lowercase [of "0xFFFD"] by (simp add: utf8_bytes_nonempty)
      next
        case nl: False
        with Cons False assms show ?thesis
          using utf8_bytes_not_lowercase [OF unat_code_unit_bound, of u]
          by (simp add: utf8_bytes_nonempty lowercase_unit_unat)
      qed
    qed
  qed
  then obtain c cs where "utf8_chunks (u # us) = c # cs" "c \<noteq> []" "\<not> lowercase_ascii (hd c)"
    by blast
  then show ?thesis
    using hd_in_concat [of c cs] by auto
qed

lemma Buffer_from_not_lowercase:
  "\<exists>u\<in>set s. \<not> lowercase_unit u \<Longrightarrow> \<exists>b\<in>set (Buffer_from s). \<not> lowercase_ascii b"
  unfolding Buffer_from_def
proof (induction s rule: utf8_chunks.induct)
  case 1
  then show ?case by simp
next
  case (2 u)
  then show ?case using first_chunk_not_lowercase [of u "[]"] by simp
next
  case (3 u v us)
  show ?case
  proof (cases "lowercase_unit u")
    case False
    then show ?thesis by (rule first_chunk_not_lowercase)
  next
    case True
    with "3.prems" have ex: "\<exists>w\<in>set (v # us). \<not> lowercase_unit w" by simp
    from True have ns: "\<not> is_high_surrogate u" "\<not> is_low_surrogate u"
      using surrogate_not_lowercase by blast+
    from "3.IH"(4) [OF ns ex] ns show ?thesis
      by auto
  qed
qed

lemma occurs_at_nth:
  assumes "occurs_at S R i" and "j < length R"
  shows "R ! j = S ! (i + j)"
proof -
  from assms(1) have il: "i \<le> length S" and R: "R = take (length R) (drop i S)"
    by (simp_all add: occurs_at_def)
  from R have "R ! j = take (length R) (drop i S) ! j"
    by simp
  also have "\<dots> = drop i S ! j"
    using assms(2) by (rule nth_take)
  also have "\<dots> = S ! (i + j)"
    using il by (rule nth_drop)
  finally show ?thesis .
qed

lemma no_occurrence_ahead_of_separator:
  assumes F: "\<forall>b\<in>set F. P b" and R: "\<exists>b\<in>set R. \<not> P b" and i: "i < length F"
  shows "\<not> occurs_at (F @ R @ T) R i"
proof
  assume occ: "occurs_at (F @ R @ T) R i"
  have "P (R ! j)" if "j < length R" for j
    using that
  proof (induction j rule: less_induct)
    case (less j)
    have eq: "R ! j = (F @ R @ T) ! (i + j)"
      using occ less.prems by (rule occurs_at_nth)
    show ?case
    proof (cases "i + j < length F")
      case True
      with eq F show ?thesis by (simp add: nth_append)
    next
      case False
      let ?k = "i + j - length F"
      from False i less.prems have k: "?k < j" "?k < length R" by simp_all
      with False eq have "R ! j = R ! ?k" by (simp add: nth_append)
      with less.IH [OF k] show ?thesis by simp
    qed
  qed
  then have "\<forall>b\<in>set R. P b"
    by (auto simp: in_set_conv_nth)
  with R show False by blast
qed

lemma occurs_at_subset: "occurs_at S R i \<Longrightarrow> set R \<subseteq> set S"
proof -
  assume "occurs_at S R i"
  then have "R = take (length R) (drop i S)" by (simp add: occurs_at_def)
  then have "set R \<subseteq> set (drop i S)" by (metis set_take_subset)
  also have "\<dots> \<subseteq> set S" by (rule set_drop_subset)
  finally show ?thesis .
qed

lemma first_occurrenceI:
  assumes "occurs_at S R i" and "\<forall>j<i. \<not> occurs_at S R j"
  shows "first_occurrence S R = Some i"
proof (cases "first_occurrence S R")
  case None
  with assms(1) show ?thesis by (simp add: first_occurrence_None)
next
  case (Some k)
  from first_occurrence_Some [OF Some] have "occurs_at S R k" "\<forall>j<k. \<not> occurs_at S R j"
    by blast+
  with assms have "k = i" by (meson linorder_neqE_nat)
  with Some show ?thesis by simp
qed

text \<open>
  C9. When the separator has at least one character that is not one of the 26 lowercase
  letters, the filler of the padded block never contains the separator, and the first
  occurrence of the separator in the block is the one \<open>rsaEncrypt\<close> put between filler
  and content: it starts exactly where the filler ends.
\<close>

theorem filler_never_contains_delimiter:
  assumes "\<exists>u\<in>set splitBar. \<not> lowercase_unit u"
    and "rsaEncrypt_contentNeedCrypt content splitBar keyLength g = Inr (padded, g')"
  shows "\<exists>filler. padded = filler @ Buffer_from splitBar @ content \<and>
           (\<forall>b\<in>set filler. lowercase_ascii b) \<and>
           (\<forall>i. \<not> occurs_at filler (Buffer_from splitBar) i) \<and>
           first_occurrence padded (Buffer_from splitBar) = Some (length filler)"
proof -
  let ?R = "Buffer_from splitBar"
  let ?rest = "keyLength / 8 - real (length ?R) - real (length content)"
  from assms(2) obtain filler where f: "getRandomBytes ?rest g = Inr (filler, g')"
    and p: "padded = filler @ ?R @ content"
    by (auto simp: rsaEncrypt_contentNeedCrypt_def Let_def split: sum.splits)
  have "0 \<le> ?rest"
  proof (rule ccontr)
    assume "\<not> 0 \<le> ?rest"
    then have "getRandomBytes ?rest g = Inl (ERR_OUT_OF_RANGE ?rest)"
      by (simp add: getRandomBytes_def Buffer_alloc_def)
    with f show False by simp
  qed
  from getRandomBytes_real [OF this, of g] f have low: "\<forall>b\<in>set filler. lowercase_ascii b"
    by auto
  from Buffer_from_not_lowercase [OF assms(1)] have R: "\<exists>b\<in>set ?R. \<not> lowercase_ascii b" .
  have no: "\<not> occurs_at filler ?R i" for i
    using occurs_at_subset [of filler ?R i] low R by blast
  have early: "\<forall>j<length filler. \<not> occurs_at (filler @ ?R @ content) ?R j"
    using no_occurrence_ahead_of_separator [of filler lowercase_ascii ?R] low R by blast
  have "occurs_at (filler @ ?R @ content) ?R (length filler)"
    by (simp add: occurs_at_def)
  with early have "first_occurrence (filler @ ?R @ content) ?R = Some (length filler)"
    by (intro first_occurrenceI)
  with p low no show ?thesis by blast
qed

theorem filler_never_contains_delimiter_witness:
  "(\<exists>u\<in>set (js ''||''). \<not> lowercase_unit u) \<and>
   rsaEncrypt_contentNeedCrypt [0x68, 0x69] (js ''||'') 64 (\<lambda>k. 1/2)
     = Inr ([0x6E, 0x6E, 0x6E, 0x6E, 0x7C, 0x7C, 0x68, 0x69], \<lambda>k. 1/2) \<and>
   (\<exists>filler. [0x6E, 0x6E, 0x6E, 0x6E, 0x7C, 0x7C, 0x68, 0x69]
        = filler @ Buffer_from (js ''||'') @ [0x68, 0x69] \<and>
      first_occurrence [0x6E, 0x6E, 0x6E, 0x6E, 0x7C, 0x7C, 0x68, 0x69] (Buffer_from (js ''||''))
        = Some (length filler)) \<and>
   first_occurrence [0x6E, 0x6E, 0x6E, 0x6E, 0x7C, 0x7C, 0x68, 0x69 :: byte] (Buffer_from (js ''||''))
     = Some 4"
proof -
  have h1: "\<exists>u\<in>set (js ''||''). \<not> lowercase_unit u"
    by (simp add: js_def lowercase_unit_def)
  have run: "getRandomBytes 4 (\<lambda>k. 1/2) = Inr ([0x6E, 0x6E, 0x6E, 0x6E], \<lambda>k. 1/2)"
    by (simp add: getRandomBytes_def Buffer_alloc_def getRandomString_def buffer_write_def
        getRandomString_loop.simps Math_random_def char_at_def letters_def js_def
        utf8_bytes_def is_high_surrogate_def is_low_surrogate_def)
  have h2: "rsaEncrypt_contentNeedCrypt [0x68, 0x69] (js ''||'') 64 (\<lambda>k. 1/2)
     = Inr ([0x6E, 0x6E, 0x6E, 0x6E, 0x7C, 0x7C, 0x68, 0x69], \<lambda>k. 1/2)"
    by (simp add: rsaEncrypt_contentNeedCrypt_def bar_bytes run)
  have pos: "first_occurrence [0x6E, 0x6E, 0x6E, 0x6E, 0x7C, 0x7C, 0x68, 0x69 :: byte]
      (Buffer_from (js ''||'')) = Some 4"
    by (simp add: first_occurrence_def occurs_at_def bar_bytes)
  from filler_never_contains_delimiter [OF h1 h2]
  have "\<exists>filler. [0x6E, 0x6E, 0x6E, 0x6E, 0x7C, 0x7C, 0x68, 0x69]
        = filler @ Buffer_from (js ''||'') @ [0x68, 0x69] \<and>
      first_occurrence [0x6E, 0x6E, 0x6E, 0x6E, 0x7C, 0x7C, 0x68, 0x69] (Buffer_from (js ''||''))
        = Some (length filler)"
    by blast
  with h1 h2 pos show ?thesis by blast
qed

section \<open>Base64: decoding inverts encoding\<close>

lemma unat_b64_char:
  "i < 64 \<Longrightarrow> unat (b64_char i) =
     (if i < 26 then 65 + i else if i < 52 then 71 + i else if i < 62 then i - 4
      else if i = 62 then 43 else 47)"
  unfolding b64_char_def by (simp add: unat_of_nat del: of_nat_add of_nat_diff)

lemma unbase64_b64_char: "i < 64 \<Longrightarrow> unbase64 (b64_char i) = Some i"
  by (auto simp: unbase64_def unat_b64_char Let_def)

lemma b64_char_not_pad: "i < 64 \<Longrightarrow> b64_char i \<noteq> 0x3D"
proof
  assume "i < 64" and "b64_char i = 0x3D"
  then have "unat (b64_char i) = 61" by simp
  with \<open>i < 64\<close> show False
    by (simp add: unat_b64_char split: if_splits)
qed

lemma b64_sextets_char: "i < 64 \<Longrightarrow> b64_sextets (b64_char i # cs) = i # b64_sextets cs"
  by (simp add: unbase64_b64_char b64_char_not_pad)

lemma div_mod_unique:
  fixes q r d :: nat
  assumes "r < d"
  shows "(q * d + r) div d = q" and "(q * d + r) mod d = r"
  using assms by simp_all

lemma digits64:
  fixes n :: nat
  shows "n div 262144 * 262144 + n div 4096 mod 64 * 4096 + n div 64 mod 64 * 64 + n mod 64 = n"
proof -
  define x where "x = n div 64"
  define y where "y = x div 64"
  define p where "p = y div 64"
  define q where "q = y mod 64"
  define r where "r = x mod 64"
  define s where "s = n mod 64"
  have a: "n div 4096 = y" and b: "n div 262144 = p" and c: "n div 64 = x"
    by (simp_all add: x_def y_def p_def div_mult2_eq [symmetric])
  have y: "y = p * 64 + q" by (simp add: p_def q_def)
  have x: "x = y * 64 + r" by (simp add: y_def r_def)
  have n: "n = x * 64 + s" by (simp add: x_def s_def)
  have "p * 262144 + q * 4096 + r * 64 + s = ((p * 64 + q) * 64 + r) * 64 + s"
    by (simp add: algebra_simps)
  also have "\<dots> = n"
    by (simp only: y [symmetric] x [symmetric] n [symmetric])
  finally show ?thesis
    by (simp only: a b c p_def [symmetric] q_def [symmetric] r_def [symmetric] s_def [symmetric])
qed

lemma b64_bytes_of_triple:
  fixes a b c :: nat
  assumes "a < 256" "b < 256" "c < 256"
  shows "(a * 65536 + b * 256 + c) div 65536 = a"
    and "(a * 65536 + b * 256 + c) div 256 mod 256 = b"
    and "(a * 65536 + b * 256 + c) mod 256 = c"
    and "(a * 65536 + b * 256 + c) div 262144 < 64"
proof -
  let ?n = "a * 65536 + b * 256 + c"
  have e1: "?n = (a * 256 + b) * 256 + c" by simp
  have e2: "?n = a * 65536 + (b * 256 + c)" by simp
  from assms have bc: "b * 256 + c < 65536" by simp
  show "?n div 65536 = a"
    unfolding e2 using bc by (rule div_mod_unique)
  have d256: "?n div 256 = a * 256 + b"
    unfolding e1 using assms(3) by (rule div_mod_unique)
  show "?n div 256 mod 256 = b"
    unfolding d256 using assms(2) by (rule div_mod_unique)
  show "?n mod 256 = c"
    unfolding e1 using assms(3) by (rule div_mod_unique)
  from assms have "?n < 64 * 262144" by simp
  then show "?n div 262144 < 64"
    by (simp add: div_less_iff_less_mult)
qed

lemma unat_byte_bound: "unat (a::byte) < 256"
  using unsigned_less [of a, where 'a = nat] by simp

lemma b64_sextets_pad: "b64_sextets (0x3D # cs) = []"
  by simp

lemma b64_group3:
  "b64_bytes (b64_sextets (b64_encode (a # b # c # rest)))
     = a # b # c # b64_bytes (b64_sextets (b64_encode rest))"
proof -
  define n where "n = unat a * 65536 + unat b * 256 + unat c"
  note t = b64_bytes_of_triple [OF unat_byte_bound unat_byte_bound unat_byte_bound, of a b c,
      folded n_def]
  have enc: "b64_encode (a # b # c # rest)
      = b64_char (n div 262144) # b64_char (n div 4096 mod 64) # b64_char (n div 64 mod 64)
        # b64_char (n mod 64) # b64_encode rest"
    by (simp add: Let_def n_def)
  have sx: "b64_sextets (b64_encode (a # b # c # rest))
      = n div 262144 # n div 4096 mod 64 # n div 64 mod 64 # n mod 64
        # b64_sextets (b64_encode rest)"
    unfolding enc using t(4) by (simp only: b64_sextets_char mod_less_divisor zero_less_numeral)
  have "b64_bytes (b64_sextets (b64_encode (a # b # c # rest)))
      = [of_nat (n div 65536), of_nat (n div 256 mod 256), of_nat (n mod 256)]
        @ b64_bytes (b64_sextets (b64_encode rest))"
    unfolding sx by (simp only: b64_bytes.simps Let_def digits64)
  then show ?thesis
    by (simp add: t)
qed

lemma b64_group2: "b64_bytes (b64_sextets (b64_encode [a, b])) = [a, b]"
proof -
  define n where "n = unat a * 65536 + unat b * 256 + 0"
  have z: "(0::nat) < 256" by simp
  note t = b64_bytes_of_triple [OF unat_byte_bound unat_byte_bound z, of a b, folded n_def]
  have n64: "n mod 64 = 0"
    by (simp add: n_def)
  have enc: "b64_encode [a, b]
      = [b64_char (n div 262144), b64_char (n div 4096 mod 64), b64_char (n div 64 mod 64), 0x3D]"
    by (simp add: Let_def n_def)
  have sx: "b64_sextets (b64_encode [a, b])
      = [n div 262144, n div 4096 mod 64, n div 64 mod 64]"
    unfolding enc using t(4)
    by (simp only: b64_sextets_char b64_sextets_pad mod_less_divisor zero_less_numeral)
  have "n div 262144 * 262144 + n div 4096 mod 64 * 4096 + n div 64 mod 64 * 64 = n"
    using digits64 [of n] n64 by simp
  then have "b64_bytes (b64_sextets (b64_encode [a, b]))
      = [of_nat (n div 65536), of_nat (n div 256 mod 256)]"
    unfolding sx by (simp only: b64_bytes.simps Let_def)
  then show ?thesis
    by (simp add: t)
qed

lemma b64_group1: "b64_bytes (b64_sextets (b64_encode [a])) = [a]"
proof -
  define n where "n = unat a * 65536 + 0 * 256 + 0"
  have z: "(0::nat) < 256" by simp
  note t = b64_bytes_of_triple [OF unat_byte_bound z z, of a, folded n_def]
  have n64: "n mod 64 = 0" "n div 64 mod 64 = 0"
    by (simp_all add: n_def)
  have enc: "b64_encode [a] = [b64_char (n div 262144), b64_char (n div 4096 mod 64), 0x3D, 0x3D]"
    by (simp add: Let_def n_def)
  have sx: "b64_sextets (b64_encode [a]) = [n div 262144, n div 4096 mod 64]"
    unfolding enc using t(4)
    by (simp only: b64_sextets_char b64_sextets_pad mod_less_divisor zero_less_numeral)
  have "n div 262144 * 262144 + n div 4096 mod 64 * 4096 = n"
    using digits64 [of n] n64 by simp
  then have "b64_bytes (b64_sextets (b64_encode [a])) = [of_nat (n div 65536)]"
    unfolding sx by (simp only: b64_bytes.simps)
  then show ?thesis
    by (simp add: t)
qed

lemma base64_round_trip: "Buffer_from_encoded (toString buf Base64) Base64 = buf"
proof -
  have "b64_bytes (b64_sextets (b64_encode buf)) = buf"
  proof (induction buf rule: b64_encode.induct)
    case 1
    show ?case by simp
  next
    case (2 a)
    show ?case by (rule b64_group1)
  next
    case (3 a b)
    show ?case by (rule b64_group2)
  next
    case (4 a b c rest)
    then show ?case by (simp only: b64_group3)
  qed
  then show ?thesis by simp
qed

section \<open>The raw RSA transform and the round trip of \<open>hello\<close>\<close>

lemma modpow_less: "0 < n \<Longrightarrow> modpow b e n < n"
  by (subst modpow.simps) simp

lemma modpow_power: "modpow b e n = b ^ e mod n"
proof (induction b e n rule: modpow.induct)
  case (1 b e n)
  show ?case
  proof (cases "e = 0")
    case True
    show ?thesis unfolding True by (subst modpow.simps) simp
  next
    case False
    define h where "h = e div 2"
    show ?thesis
    proof (cases "even e")
      case True
      then have e: "e = 2 * h" by (auto simp: h_def)
      have "modpow b e n = (b ^ h mod n)\<^sup>2 mod n"
        using False True "1.IH"(1) by (simp add: modpow.simps [of b e n] h_def)
      also have "\<dots> = (b ^ h)\<^sup>2 mod n"
        by (simp add: power_mod)
      also have "(b ^ h)\<^sup>2 = b ^ e"
        by (simp add: e power_mult [symmetric] mult.commute)
      finally show ?thesis .
    next
      case odd: False
      then have e: "e = Suc (2 * h)" by (auto simp: h_def elim: oddE)
      have "modpow b e n = b * (b ^ h mod n)\<^sup>2 mod n"
        using False odd "1.IH"(2) by (simp add: modpow.simps [of b e n] h_def)
      also have "\<dots> = b * ((b ^ h mod n)\<^sup>2 mod n) mod n"
        by (simp add: mod_mult_right_eq)
      also have "\<dots> = b * ((b ^ h)\<^sup>2 mod n) mod n"
        by (simp add: power_mod)
      also have "\<dots> = b * (b ^ h)\<^sup>2 mod n"
        by (simp add: mod_mult_right_eq)
      also have "b * (b ^ h)\<^sup>2 = b ^ e"
        by (simp add: e power_mult [symmetric] mult.commute)
      finally show ?thesis .
    qed
  qed
qed

lemma os2ip_less: "os2ip bs < 256 ^ length bs"
proof (induction bs)
  case Nil
  show ?case by simp
next
  case (Cons b bs)
  define X :: nat where "X = 256 ^ length bs"
  have "unat b \<le> 255"
    using unat_byte_bound [of b] by simp
  then have "unat b * X \<le> 255 * X"
    by (rule mult_le_mono1)
  moreover have "os2ip bs < X"
    using Cons by (simp add: X_def)
  ultimately have "unat b * X + os2ip bs < 256 * X"
    by linarith
  then show ?case
    by (simp add: X_def)
qed

lemma length_i2osp: "length (i2osp k v) = k"
  by (induction k arbitrary: v) simp_all

lemma os2ip_append: "os2ip (xs @ ys) = os2ip xs * 256 ^ length ys + os2ip ys"
  by (induction xs) (simp_all add: power_add algebra_simps)

lemma os2ip_i2osp: "os2ip (i2osp k v) = v mod 256 ^ k"
proof (induction k arbitrary: v)
  case 0
  show ?case by simp
next
  case (Suc k)
  have "os2ip (i2osp (Suc k) v) = (v div 256 mod 256 ^ k) * 256 + v mod 256"
    by (simp add: os2ip_append Suc unat_of_nat)
  also have "\<dots> = v mod (256 * 256 ^ k)"
    by (simp add: mod_mult2_eq)
  finally show ?case by simp
qed

lemma i2osp_os2ip: "i2osp (length bs) (os2ip bs) = bs"
proof (induction bs rule: rev_induct)
  case Nil
  show ?case by simp
next
  case (snoc x xs)
  have "os2ip (xs @ [x]) = os2ip xs * 256 + unat x"
    by (simp add: os2ip_append)
  moreover have "(os2ip xs * 256 + unat x) div 256 = os2ip xs"
    and "(os2ip xs * 256 + unat x) mod 256 = unat x"
    using unat_byte_bound [of x] by (rule div_mod_unique)+
  ultimately show ?case
    using snoc by simp
qed

lemma RSA_size_bounds: "256 ^ k \<le> n \<Longrightarrow> n < 256 ^ Suc k \<Longrightarrow> RSA_size n = Suc k"
proof (induction k arbitrary: n)
  case 0
  then have "n div 256 = 0" "n \<noteq> 0" by simp_all
  then show ?case
    by (simp add: RSA_size.simps [of n] RSA_size.simps [of 0])
next
  case (Suc k)
  from Suc.prems have "n \<noteq> 0" by auto
  moreover have "256 ^ k \<le> n div 256"
    using Suc.prems(1) by (simp add: less_eq_div_iff_mult_less_eq mult.commute)
  moreover have "n div 256 < 256 ^ Suc k"
    using Suc.prems(2) by (simp add: div_less_iff_less_mult mult.commute)
  ultimately show ?case
    using Suc.IH [of "n div 256"] by (simp add: RSA_size.simps [of n])
qed

lemma RSA_size_2048:
  assumes "2 ^ 2047 \<le> n" and "n < 2 ^ 2048"
  shows "RSA_size n = 256"
proof -
  have p: "(256::nat) ^ k = 2 ^ (8 * k)" for k
    by (simp add: power_mult)
  have "(2::nat) ^ 2040 \<le> 2 ^ 2047"
    by (rule power_increasing) simp_all
  with assms have "256 ^ 255 \<le> n" "n < 256 ^ Suc 255"
    by (simp_all add: p)
  then have "RSA_size n = Suc 255"
    by (rule RSA_size_bounds)
  then show ?thesis by simp
qed

lemma RSA_size_upper: "n < 256 ^ RSA_size n"
proof (induction n rule: RSA_size.induct)
  case (1 n)
  show ?case
  proof (cases "n = 0")
    case True
    then show ?thesis by (simp add: RSA_size.simps [of n])
  next
    case False
    with "1.IH" have "n div 256 < 256 ^ RSA_size (n div 256)" by simp
    then have "n < 256 * 256 ^ RSA_size (n div 256)"
      by (simp add: div_less_iff_less_mult mult.commute)
    with False show ?thesis by (simp add: RSA_size.simps [of n])
  qed
qed

lemma raw_rsa_round_trip:
  assumes pair: "\<forall>m<n. modpow (modpow m e n) d n = m"
    and len: "length data = RSA_size n"
    and small: "os2ip data < n"
  shows "\<exists>c. publicEncrypt (PublicKey n e) data = Inr c \<and>
           privateDecrypt (PrivateKey n e d) c = Inr data"
proof -
  let ?k = "RSA_size n"
  let ?m = "os2ip data"
  let ?c = "i2osp ?k (modpow ?m e n)"
  from small have pos: "0 < n" by simp
  have enc: "publicEncrypt (PublicKey n e) data = Inr ?c"
    using len small by (simp add: publicEncrypt_def)
  have "modpow ?m e n < n"
    using pos by (rule modpow_less)
  moreover have "n < 256 ^ ?k"
    by (rule RSA_size_upper)
  ultimately have c: "os2ip ?c = modpow ?m e n" "os2ip ?c < n"
    by (simp_all add: os2ip_i2osp)
  have "modpow (modpow ?m e n) d n = ?m"
    using pair small by blast
  then have "privateDecrypt (PrivateKey n e d) ?c = Inr (i2osp ?k ?m)"
    using c by (simp add: privateDecrypt_def length_i2osp)
  also have "i2osp ?k ?m = data"
    using i2osp_os2ip [of data] len by simp
  finally show ?thesis
    using enc by blast
qed

lemma utf8_decode_ascii: "\<forall>x\<in>set xs. x < 0x80 \<Longrightarrow> utf8_decode xs = xs"
  by (induction xs) (simp_all add: utf8_first_def)

lemma toString_utf8_ascii:
  assumes "\<forall>b\<in>set buf. b < 0x80"
  shows "toString buf Utf8 = map ucast buf"
proof -
  from assms have small: "\<forall>x\<in>set (map unat buf). x < 0x80"
    by (auto simp: word_less_nat_alt)
  have units: "concat (map utf16_units xs) = map of_nat xs" if "\<forall>x\<in>set xs. x < 0x80" for xs
    using that by (induction xs) (simp_all add: utf16_units_def)
  have "toString buf Utf8 = concat (map utf16_units (map unat buf))"
    by (simp only: toString.simps utf8_decode_ascii [OF small])
  also have "\<dots> = map of_nat (map unat buf)"
    using small by (rule units)
  also have "\<dots> = map ucast buf"
    by simp
  finally show ?thesis .
qed

lemma lowercase_ascii_small: "lowercase_ascii b \<Longrightarrow> b < 0x80"
  by (simp add: lowercase_ascii_def word_le_nat_alt word_less_nat_alt)

lemma lowercase_ascii_ucast: "lowercase_ascii b \<Longrightarrow> lowercase_unit (ucast b)"
  by (simp add: lowercase_ascii_def lowercase_unit_def word_le_nat_alt unsigned_ucast_eq
      take_bit_eq_mod)

lemma hello_bytes: "Buffer_from (js ''hello'') = [0x68, 0x65, 0x6C, 0x6C, 0x6F]"
  by (simp add: Buffer_from_def js_def utf8_bytes_def is_high_surrogate_def is_low_surrogate_def)

lemma split_padded_hello:
  assumes "\<forall>b\<in>set filler. lowercase_ascii b"
  shows "element_at (split (toString (filler @ Buffer_from (js ''||'') @ Buffer_from (js ''hello'')) Utf8)
           (js ''||'')) 1 = Some (js ''hello'')"
proof -
  let ?F = "map ucast filler :: jsstring"
  let ?R = "js ''||''"
  let ?T = "js ''hello''"
  have bytes: "filler @ Buffer_from (js ''||'') @ Buffer_from (js ''hello'')
      = filler @ [0x7C, 0x7C, 0x68, 0x65, 0x6C, 0x6C, 0x6F]"
    by (simp add: bar_bytes hello_bytes)
  have "\<forall>b\<in>set (filler @ [0x7C, 0x7C, 0x68, 0x65, 0x6C, 0x6C, 0x6F]). b < 0x80"
    using assms lowercase_ascii_small by auto
  then have "toString (filler @ [0x7C, 0x7C, 0x68, 0x65, 0x6C, 0x6C, 0x6F]) Utf8
      = map ucast (filler @ [0x7C, 0x7C, 0x68, 0x65, 0x6C, 0x6C, 0x6F])"
    by (rule toString_utf8_ascii)
  also have "\<dots> = ?F @ ?R @ ?T"
    by (simp add: js_def)
  finally have rendered: "toString (filler @ Buffer_from (js ''||'') @ Buffer_from (js ''hello'')) Utf8
      = ?F @ ?R @ ?T"
    by (simp only: bytes)
  have F: "\<forall>u\<in>set ?F. lowercase_unit u"
    using assms lowercase_ascii_ucast by auto
  have R: "\<exists>u\<in>set ?R. \<not> lowercase_unit u" and ne: "?R \<noteq> []"
    by (simp_all add: js_def lowercase_unit_def)
  have "\<forall>j<length ?F. \<not> occurs_at (?F @ ?R @ ?T) ?R j"
    using no_occurrence_ahead_of_separator [of ?F lowercase_unit ?R] F R by blast
  moreover have "occurs_at (?F @ ?R @ ?T) ?R (length ?F)"
    by (simp add: occurs_at_def)
  ultimately have "first_occurrence (?F @ ?R @ ?T) ?R = Some (length ?F)"
    by (intro first_occurrenceI)
  from split_at_first_occurrence [OF ne this] obtain more where
    "split (?F @ ?R @ ?T) ?R
       = take (length ?F) (?F @ ?R @ ?T)
         # segment_until_next (drop (length ?F + length ?R) (?F @ ?R @ ?T)) ?R # more"
    by blast
  moreover have "segment_until_next ?T ?R = ?T"
    by (simp add: segment_until_next_def first_occurrence_def occurs_at_def js_def)
  ultimately have "element_at (split (?F @ ?R @ ?T) ?R) 1 = Some ?T"
    by (simp add: element_at_def)
  then show ?thesis
    by (simp only: rendered)
qed

lemma padded_below_modulus:
  assumes low: "\<forall>b\<in>set filler. lowercase_ascii b" and ne: "filler \<noteq> []"
    and len: "length (filler @ rest) = 256" and n: "2 ^ 2047 \<le> n"
  shows "os2ip (filler @ rest) < n"
proof -
  from ne obtain b fs where f: "filler = b # fs" by (cases filler) auto
  define X :: nat where "X = 256 ^ 255"
  from f len have l: "length (fs @ rest) = 255" by simp
  have "os2ip (fs @ rest) < 256 ^ length (fs @ rest)"
    by (rule os2ip_less)
  then have tail: "os2ip (fs @ rest) < X"
    by (simp only: l X_def)
  from low f have "unat b \<le> 0x7A"
    by (simp add: lowercase_ascii_def word_le_nat_alt)
  then have "unat b * X \<le> 0x7A * X"
    by (rule mult_le_mono1)
  with tail have "unat b * X + os2ip (fs @ rest) < 128 * X"
    by linarith
  moreover have "os2ip (filler @ rest) = unat b * X + os2ip (fs @ rest)"
    using f l by (simp add: X_def)
  moreover have "128 * X = 2 ^ 2047"
  proof -
    have "(256::nat) ^ 255 = 2 ^ (8 * 255)"
      by (simp add: power_mult)
    moreover have "(128::nat) = 2 ^ 7" by simp
    ultimately have "128 * X = 2 ^ 7 * 2 ^ (8 * 255)"
      by (simp only: X_def)
    also have "\<dots> = 2 ^ (7 + 8 * 255)"
      by (simp only: power_add)
    finally show ?thesis by simp
  qed
  ultimately show ?thesis
    using n by linarith
qed

text \<open>
  C1. For a 2048-bit modulus \<open>n\<close> and exponents \<open>e\<close>, \<open>d\<close> that form a key pair (the
  private transform undoes the public one on every number below \<open>n\<close>, which is what the
  RSA key generation guarantees), with the public key under \<open>pubKeyPath\<close> and the private
  key under \<open>priKeyPath\<close>: for every state of the random source, \<open>rsaEncrypt\<close> of the
  content \<open>hello\<close> with the separator \<open>||\<close>, key length 2048 and the default encoding
  succeeds, and \<open>rsaDecrypt\<close> of its result with the same separator and the default
  encodings returns \<open>hello\<close>. The witness is the modulus \<open>2 ^ 2047 + 1\<close> with both
  exponents 1, the simplest pair for which the hypothesis can be checked by computation.
\<close>

theorem rsa_round_trip_hello:
  assumes bits: "2 ^ 2047 \<le> n" "n < 2 ^ 2048"
    and pair: "\<forall>m<n. modpow (modpow m e n) d n = m"
    and pub: "fs pubKeyPath = Some (PublicKey n e)"
    and pri: "fs priKeyPath = Some (PrivateKey n e d)"
  shows "\<exists>c g'. rsaEncrypt fs (Buffer_from (js ''hello'')) (js ''||'') pubKeyPath 2048 None g
             = Inr (c, g') \<and>
           rsaDecrypt fs c (js ''||'') priKeyPath None None = Inr (Some (js ''hello''))"
proof -
  let ?bar = "Buffer_from (js ''||'')" and ?hello = "Buffer_from (js ''hello'')"
  obtain filler g' where f: "getRandomBytes (real (249::nat)) g = Inr (filler, g')"
    "length filler = 249" "\<forall>b\<in>set filler. lowercase_ascii b"
    using getRandomBytes_nat [of 249 g] by blast
  let ?padded = "filler @ ?bar @ ?hello"
  have rest: "2048 / 8 - real (length ?bar) - real (length ?hello) = real (249::nat)"
    by (simp add: bar_bytes hello_bytes)
  have padded: "rsaEncrypt_contentNeedCrypt ?hello (js ''||'') 2048 g = Inr (?padded, g')"
    by (simp only: rsaEncrypt_contentNeedCrypt_def Let_def rest f(1)) simp
  have size: "RSA_size n = 256"
    using bits by (rule RSA_size_2048)
  have len: "length ?padded = 256"
    using f(2) by (simp add: bar_bytes hello_bytes)
  from f(2) have "filler \<noteq> []" by auto
  with f(3) len bits(1) have small: "os2ip ?padded < n"
    by (intro padded_below_modulus)
  from len size have "length ?padded = RSA_size n" by simp
  from raw_rsa_round_trip [OF pair this small] obtain c where
    c: "publicEncrypt (PublicKey n e) ?padded = Inr c"
       "privateDecrypt (PrivateKey n e d) c = Inr ?padded"
    by blast
  have enc: "rsaEncrypt fs ?hello (js ''||'') pubKeyPath 2048 None g = Inr (toString c Base64, g')"
    by (simp add: rsaEncrypt_def padded readFileSync_def pub c(1) default_to_def)
  have "rsaDecrypt_decryptedData fs (toString c Base64) priKeyPath None None
      = Inr (toString ?padded Utf8)"
    by (simp only: rsaDecrypt_decryptedData_def Let_def default_to_def option.case
        base64_round_trip readFileSync_def pri c(2) sum.case)
  then have "rsaDecrypt fs (toString c Base64) (js ''||'') priKeyPath None None
      = Inr (element_at (split (toString ?padded Utf8) (js ''||'')) 1)"
    by (simp only: rsaDecrypt_def sum.case)
  also have "\<dots> = Inr (Some (js ''hello''))"
    using f(3) by (simp only: split_padded_hello)
  finally show ?thesis
    using enc by blast
qed

theorem rsa_round_trip_hello_witness:
  "2 ^ 2047 \<le> (2 ^ 2047 + 1 :: nat) \<and> (2 ^ 2047 + 1 :: nat) < 2 ^ 2048 \<and>
   (\<exists>c g'. rsaEncrypt [js ''pub.pem'' \<mapsto> PublicKey (2 ^ 2047 + 1) 1,
                       js ''pri.pem'' \<mapsto> PrivateKey (2 ^ 2047 + 1) 1 1]
              (Buffer_from (js ''hello'')) (js ''||'') (js ''pub.pem'') 2048 None (\<lambda>k. 1/2)
            = Inr (c, g') \<and>
          rsaDecrypt [js ''pub.pem'' \<mapsto> PublicKey (2 ^ 2047 + 1) 1,
                      js ''pri.pem'' \<mapsto> PrivateKey (2 ^ 2047 + 1) 1 1]
              c (js ''||'') (js ''pri.pem'') None None
            = Inr (Some (js ''hello'')))"
proof -
  define n :: nat where "n = 2 ^ 2047 + 1"
  define fs :: filesystem where
    "fs = [js ''pub.pem'' \<mapsto> PublicKey n 1, js ''pri.pem'' \<mapsto> PrivateKey n 1 1]"
  have h1: "2 ^ 2047 \<le> n" by (simp add: n_def)
  have "(2::nat) ^ 2048 = 2 * 2 ^ 2047" by (simp only: power_Suc [symmetric]) simp
  then have h2: "n < 2 ^ 2048" by (simp only: n_def) simp
  have h3: "\<forall>m<n. modpow (modpow m 1 n) 1 n = m"
    by (simp add: modpow_power)
  have h4: "fs (js ''pub.pem'') = Some (PublicKey n 1)"
    by (simp add: fs_def js_def)
  have h5: "fs (js ''pri.pem'') = Some (PrivateKey n 1 1)"
    by (simp add: fs_def)
  from rsa_round_trip_hello [OF h1 h2 h3 h4 h5, of "\<lambda>k. 1/2"] h1 h2
  show ?thesis
    unfolding n_def fs_def by blast
qed

section \<open>AES: the round trip\<close>

lemma unat_hex_digit: "d < 16 \<Longrightarrow> unat (hex_digit d) = (if d < 10 then 48 + d else 87 + d)"
  unfolding hex_digit_def by (simp add: unat_of_nat del: of_nat_add)

lemma unhex_hex_digit: "d < 16 \<Longrightarrow> unhex (hex_digit d) = Some d"
  by (auto simp: unhex_def unat_hex_digit Let_def)

lemma hex_round_trip: "Buffer_from_encoded (toString buf Hex) Hex = buf"
proof -
  have "hex_decode (concat (map (\<lambda>b. [hex_digit (unat b div 16), hex_digit (unat b mod 16)]) buf))
      = buf"
  proof (induction buf)
    case Nil
    show ?case by simp
  next
    case (Cons b bs)
    have hi: "unat b div 16 < 16"
      using unat_byte_bound [of b] by (simp add: div_less_iff_less_mult)
    have "(of_nat (unat b div 16 * 16 + unat b mod 16) :: byte) = b"
      by simp
    with Cons hi show ?case
      by (simp add: unhex_hex_digit del: of_nat_add of_nat_mult)
  qed
  then show ?thesis by simp
qed

lemma latin1_round_trip: "Buffer_from_encoded (toString buf Latin1) Latin1 = buf"
proof -
  have "ucast (ucast b :: code_unit) = b" for b :: byte
    by (rule ucast_up_ucast_id) (simp add: is_up)
  then show ?thesis
    by (simp add: comp_def)
qed

lemma lossless_rendered_exactly:
  "enc \<in> {Base64, Hex, Latin1} \<Longrightarrow> rendered_exactly enc b"
  using base64_round_trip hex_round_trip latin1_round_trip
  by (auto simp: rendered_exactly_def simp del: toString.simps Buffer_from_encoded.simps)




lemma aes_round_trip_rereads:
  assumes c: "createCipheriv P algorithm k v = Inr c"
    and dc: "createDecipheriv P algorithm k v = Inr dc"
    and inv: "decipher_inverts dc c"
    and decoders: "\<forall>enc. decoder_consistent (StringDecoder P enc) enc"
    and ce: "default_to Base64 outputEncoding \<in> {Base64, Hex, Latin1}"
    and same_ce: "default_to Base64 inputEncoding' = default_to Base64 outputEncoding"
    and same_pe: "default_to Utf8 outputEncoding' = default_to Utf8 inputEncoding"
    and readable: "rendered_exactly (default_to Utf8 inputEncoding)
                     (Buffer_from_encoded x (default_to Utf8 inputEncoding))"
  shows "\<exists>ct. aesEncrypt P (Str x) algorithm k v inputEncoding outputEncoding = Inr ct \<and>
           aesDecrypt P (Str ct) algorithm k v inputEncoding' outputEncoding'
             = Inr (toString (Buffer_from_encoded x (default_to Utf8 inputEncoding))
                 (default_to Utf8 inputEncoding))"
proof -
  define pe where "pe = default_to Utf8 inputEncoding"
  define ce where "ce = default_to Base64 outputEncoding"
  define data where "data = Buffer_from_encoded x pe"
  define u where "u = fst (c data)"
  from inv obtain f q where f: "snd (c data) = Inr f"
    and q: "snd (dc (u @ f)) = Inr q" and restored: "fst (dc (u @ f)) @ q = data"
    unfolding decipher_inverts_def u_def by blast
  define p where "p = fst (dc (u @ f))"
  define ct where "ct = toString (u @ f) ce"
  have cdata: "c data = (u, Inr f)"
    using f by (simp add: u_def prod_eq_iff)
  have dcdata: "dc (u @ f) = (p, Inr q)"
    using q by (simp add: p_def prod_eq_iff)
  have ex_ct: "rendered_exactly ce (u @ f)"
    using ce unfolding ce_def by (rule lossless_rendered_exactly)
  with decoders have w1: "fst (StringDecoder P ce u) @ snd (StringDecoder P ce u) f = ct"
    unfolding decoder_consistent_def ct_def by blast
  have enc: "aesEncrypt P (Str x) algorithm k v inputEncoding outputEncoding = Inr ct"
    using w1
    by (simp add: aesEncrypt_def c Cipher_update_def Cipher_final_def content_bytes_def
        pe_def [symmetric] data_def [symmetric] ce_def [symmetric] cdata split_beta Let_def)
  have bytes: "Buffer_from_encoded ct ce = u @ f"
    using ex_ct by (simp only: rendered_exactly_def ct_def)
  have "rendered_exactly pe (p @ q)"
    using restored readable by (simp only: p_def data_def pe_def)
  with decoders have "fst (StringDecoder P pe p) @ snd (StringDecoder P pe p) q = toString (p @ q) pe"
    unfolding decoder_consistent_def by blast
  also have "\<dots> = toString data pe"
    using restored by (simp only: p_def)
  finally have w2: "fst (StringDecoder P pe p) @ snd (StringDecoder P pe p) q = toString data pe" .
  have "aesDecrypt P (Str ct) algorithm k v inputEncoding' outputEncoding' = Inr (toString data pe)"
    using w2
    by (simp add: aesDecrypt_def dc Cipher_update_def Cipher_final_def content_bytes_def
        same_ce same_pe default_to_def [of _ "Some _"] pe_def [symmetric] ce_def [symmetric]
        bytes dcdata split_beta Let_def)
  then have "aesDecrypt P (Str ct) algorithm k v inputEncoding' outputEncoding'
      = Inr (toString (Buffer_from_encoded x (default_to Utf8 inputEncoding))
          (default_to Utf8 inputEncoding))"
    by (simp only: data_def pe_def)
  with enc show ?thesis by blast
qed

lemma aes_unpaired_surrogate:
  assumes "createCipheriv P algorithm k v = Inr c"
    and "createDecipheriv P algorithm k v = Inr dc"
    and "decipher_inverts dc c"
    and "\<forall>enc. decoder_consistent (StringDecoder P enc) enc"
  shows "\<exists>ct. aesEncrypt P (Str [0xD800]) algorithm k v None None = Inr ct \<and>
           aesDecrypt P (Str ct) algorithm k v None None = Inr [0xFFFD]"
proof -
  have b: "Buffer_from [0xD800] = [0xEF, 0xBF, 0xBD]" "Buffer_from [0xFFFD] = [0xEF, 0xBF, 0xBD]"
    by (simp_all add: Buffer_from_def utf8_bytes_def is_high_surrogate_def is_low_surrogate_def)
  have t: "toString [0xEF, 0xBF, 0xBD] Utf8 = [0xFFFD]"
    by (simp add: utf8_first_def utf16_units_def)
  have r: "rendered_exactly (default_to Utf8 None) (Buffer_from_encoded [0xD800] (default_to Utf8 None))"
    by (simp only: rendered_exactly_def default_to_def option.case Buffer_from_encoded.simps b t)
  have ce: "default_to Base64 None \<in> {Base64, Hex, Latin1}"
    by (simp add: default_to_def)
  from aes_round_trip_rereads [OF assms ce refl refl r]
  show ?thesis
    by (simp only: default_to_def option.case Buffer_from_encoded.simps b t)
qed




end
